theory Spec2Isabelle
  imports Main "HOL-Library.Sublist"
begin

section \<open>Python strings\<close>

text \<open>
  A Python \<open>str\<close> is a sequence of code points and \<open>len\<close> counts code points. It is
  modelled as a \<open>string\<close> in which every \<open>char\<close> is one code point below 256, so that
  the section sign of the tax code is the single character \<open>CHR 0xA7\<close>. The character
  classes below are Python's (\<open>str.isspace\<close>, which is also the class \<open>\s\<close> of \<open>re\<close>
  on \<open>str\<close> patterns; the decimal digits of \<open>\d\<close>; \<open>str.lower\<close>) on that range.
\<close>

definition isspace :: "char \<Rightarrow> bool" where
  "isspace c = (c \<in> set [CHR 0x09, CHR 0x0A, CHR 0x0B, CHR 0x0C, CHR 0x0D,
                         CHR 0x1C, CHR 0x1D, CHR 0x1E, CHR 0x1F, CHR 0x20,
                         CHR 0x85, CHR 0xA0])"

definition isdigit :: "char \<Rightarrow> bool" where
  "isdigit c = (c \<in> set ''0123456789'')"

definition lower_char :: "char \<Rightarrow> char" where
  "lower_char c =
     (let n = (of_char c :: nat)
      in if (65 \<le> n \<and> n \<le> 90) \<or> (192 \<le> n \<and> n \<le> 222 \<and> n \<noteq> 215)
         then char_of (n + 32) else c)"

definition lower :: "string \<Rightarrow> string" where
  "lower s = map lower_char s"

text \<open>\<open>s.strip()\<close>: leading and trailing whitespace removed.\<close>

definition lstrip :: "string \<Rightarrow> string" where
  "lstrip s = dropWhile isspace s"

definition rstrip :: "string \<Rightarrow> string" where
  "rstrip s = rev (dropWhile isspace (rev s))"

definition strip :: "string \<Rightarrow> string" where
  "strip s = rstrip (lstrip s)"

text \<open>
  \<open>s.split(sep)\<close> for a non-empty separator: the pieces between the leftmost,
  non-overlapping occurrences of \<open>sep\<close>; \<open>cur\<close> is the piece being read. (Python raises
  ValueError on an empty separator; the program only splits on \<open>"\n"\<close>, \<open>"\n\n"\<close> and
  \<open>"}"\<close>.)
\<close>

function split_from :: "string \<Rightarrow> string \<Rightarrow> string \<Rightarrow> string list" where
  "split_from sep cur [] = [cur]"
| "split_from sep cur (c # cs) =
     (if prefix sep (c # cs) then cur # split_from sep [] (drop (length sep - 1) cs)
      else split_from sep (cur @ [c]) cs)"
  by pat_completeness auto
termination
  by (relation "measure (\<lambda>(sep, cur, s). length s)") auto

definition split :: "string \<Rightarrow> string \<Rightarrow> string list" where
  "split s sep = split_from sep [] s"

text \<open>\<open>sep.join(xs)\<close>.\<close>

fun join :: "string \<Rightarrow> string list \<Rightarrow> string" where
  "join sep [] = []"
| "join sep [x] = x"
| "join sep (x # y # ys) = x @ sep @ join sep (y # ys)"

text \<open>\<open>t in s\<close> on strings: \<open>t\<close> occurs in \<open>s\<close> as a contiguous substring.\<close>

fun contains :: "string \<Rightarrow> string \<Rightarrow> bool" where
  "contains [] t = (t = [])"
| "contains (c # cs) t = (prefix t (c # cs) \<or> contains cs t)"

section \<open>The document tree\<close>

text \<open>
  An lxml element: its tag in Clark notation (\<open>{namespace}local\<close>), the prefix its
  namespace is bound to (\<open>element.prefix\<close>: \<open>None\<close> for an element in no namespace or in
  the default namespace), its attributes, the text before its first child (\<open>None\<close>
  when there is none), its children in document order, and the tail text that follows
  its end tag inside the parent (\<open>None\<close> when there is none). The parent of an element
  is passed along by the tree walk. The children are elements only: a document with
  comments or processing instructions, whose \<open>tag\<close> is not a string, is outside the
  model.
\<close>

datatype element =
  Element (tag: string) (prefix_of: "string option") (attrib: "(string \<times> string) list")
          (text_of: "string option") (children: "element list") (tail: "string option")

text \<open>Python's \<open>x or ""\<close> on an optional string.\<close>

definition or_empty :: "string option \<Rightarrow> string" where
  "or_empty t = (case t of None \<Rightarrow> [] | Some s \<Rightarrow> s)"

definition get_tag_name :: "element \<Rightarrow> string" where
  "get_tag_name element =
     (if CHR ''}'' \<in> set (tag element)
      then (case split (tag element) ''}'' of a # b # rest \<Rightarrow> b | _ \<Rightarrow> tag element)
      else tag element)"

definition get_child_text :: "element \<Rightarrow> string \<Rightarrow> string" where
  "get_child_text element child_tag =
     (case find (\<lambda>child. get_tag_name child = child_tag \<and> or_empty (text_of child) \<noteq> [])
                (children element) of
        None \<Rightarrow> []
      | Some child \<Rightarrow> strip (or_empty (text_of child)))"

definition should_process_children :: "element \<Rightarrow> bool" where
  "should_process_children element =
     (get_tag_name element \<notin> set [''section'', ''subsection'', ''paragraph'', ''subparagraph'',
                                    ''table'', ''list'', ''note'', ''notes''])"

section \<open>Tables and lists\<close>

text \<open>
  The tree BeautifulSoup builds: a tag with its name and contents, a \<open>NavigableString\<close>,
  or a string of one of the classes bs4 keeps apart (\<open>Stylesheet\<close>, \<open>Script\<close>,
  \<open>TemplateString\<close>, \<open>RubyTextString\<close>, \<open>RubyParenthesisString\<close>). \<open>get_text\<close> with its
  default types reads the strings whose class is \<open>NavigableString\<close> itself and leaves the
  others out, so the text of a \<open>SpecialString\<close> is not kept.
  \<open>descendants\<close> lists everything below a tag in document order, as
  \<open>Tag.descendants\<close> does; \<open>find\<close> returns the first tag below with the given name,
  \<open>find_all\<close> all of them; \<open>get_text\<close> is \<open>get_text(strip=True)\<close>: every
  \<open>NavigableString\<close> below, stripped, the empty ones left out, concatenated with no
  separator.
\<close>

datatype soup = Tag (name: string) (contents: "soup list") | NavigableString string | SpecialString

fun descendants :: "soup \<Rightarrow> soup list" where
  "descendants (Tag n cs) = concat (map (\<lambda>c. c # descendants c) cs)"
| "descendants (NavigableString s) = []"
| "descendants SpecialString = []"

fun is_tag_named :: "string \<Rightarrow> soup \<Rightarrow> bool" where
  "is_tag_named nm (Tag n cs) = (n = nm)"
| "is_tag_named nm (NavigableString s) = False"
| "is_tag_named nm SpecialString = False"

definition find_tag :: "soup \<Rightarrow> string \<Rightarrow> soup option" where
  "find_tag t nm = find (is_tag_named nm) (descendants t)"

definition find_all :: "soup \<Rightarrow> string \<Rightarrow> soup list" where
  "find_all t nm = filter (is_tag_named nm) (descendants t)"

fun stripped_string :: "soup \<Rightarrow> string list" where
  "stripped_string (NavigableString s) = (if strip s = [] then [] else [strip s])"
| "stripped_string (Tag n cs) = []"
| "stripped_string SpecialString = []"

definition get_text :: "soup \<Rightarrow> string" where
  "get_text t = concat (concat (map stripped_string (descendants t)))"

text \<open>One pipe-delimited row.\<close>

definition table_row :: "string list \<Rightarrow> string" where
  "table_row cells = ''| '' @ join '' | '' cells @ '' |''"

text \<open>
  \<open>table_to_markdown\<close> from the parsed document on: \<open>soup\<close> is the BeautifulSoup
  object, \<open>header_rows\<close> is what \<open>Process header\<close> appends to \<open>result\<close> and \<open>body_rows\<close>
  what \<open>Process body\<close> appends. A \<open>Tag\<close> is always true in Python, so \<open>if not table\<close>,
  \<open>if thead\<close> and \<open>if tbody\<close> only test for \<open>None\<close>.
\<close>

definition header_rows :: "soup \<Rightarrow> string list" where
  "header_rows table =
     (let headers = (case find_tag table ''thead'' of
                       None \<Rightarrow> []
                     | Some thead \<Rightarrow> map get_text (find_all thead ''th''))
      in if headers \<noteq> []
         then [table_row headers, table_row (replicate (length headers) ''---'')]
         else [])"

definition body_rows :: "soup \<Rightarrow> string list" where
  "body_rows table =
     (case find_tag table ''tbody'' of
        None \<Rightarrow> []
      | Some tbody \<Rightarrow>
          concat (map (\<lambda>tr. let row = map get_text (find_all tr ''td'')
                             in if row \<noteq> [] then [table_row row] else [])
                      (find_all tbody ''tr'')))"

definition table_to_markdown_soup :: "soup \<Rightarrow> string" where
  "table_to_markdown_soup soup =
     (case find_tag soup ''table'' of
        None \<Rightarrow> []
      | Some table \<Rightarrow> join ''\<newline>'' (header_rows table @ body_rows table))"

text \<open>
  The same function with Python's errors written out. \<open>find\<close> returns \<open>None\<close> when no
  tag matches, and a method called on \<open>None\<close> raises \<open>AttributeError\<close>: \<open>find_method\<close> and
  \<open>find_all_method\<close> are \<open>obj.find(name)\<close> and \<open>obj.find_all(name)\<close> on a value that may
  be \<open>None\<close>. The tags that \<open>find_all\<close> returns are never \<open>None\<close>. The two library calls
  that build \<open>soup\<close> are taken not to raise.
\<close>

datatype error = AttributeError

definition find_method :: "soup option \<Rightarrow> string \<Rightarrow> error + soup option" where
  "find_method obj nm = (case obj of None \<Rightarrow> Inl AttributeError | Some t \<Rightarrow> Inr (find_tag t nm))"

definition find_all_method :: "soup option \<Rightarrow> string \<Rightarrow> error + soup list" where
  "find_all_method obj nm =
     (case obj of None \<Rightarrow> Inl AttributeError | Some t \<Rightarrow> Inr (find_all t nm))"

definition and_then :: "error + 'a \<Rightarrow> ('a \<Rightarrow> error + 'b) \<Rightarrow> error + 'b" where
  "and_then r f = (case r of Inl e \<Rightarrow> Inl e | Inr v \<Rightarrow> f v)"

definition table_to_markdown_soup_result :: "soup \<Rightarrow> error + string" where
  "table_to_markdown_soup_result soup =
     (let table = find_tag soup ''table''
      in if table = None then Inr []
         else
           and_then (find_method table ''thead'') (\<lambda>thead.
           and_then (if thead \<noteq> None
                     then and_then (find_all_method thead ''th'') (\<lambda>ths. Inr (map get_text ths))
                     else Inr []) (\<lambda>headers.
           and_then (find_method table ''tbody'') (\<lambda>tbody.
           and_then (if tbody \<noteq> None
                     then and_then (find_all_method tbody ''tr'') (\<lambda>trs.
                            Inr (concat (map (\<lambda>tr. let row = map get_text (find_all tr ''td'')
                                                   in if row \<noteq> [] then [table_row row] else [])
                                             trs)))
                     else Inr []) (\<lambda>rows.
           Inr (join ''\<newline>''
                  ((if headers \<noteq> []
                    then [table_row headers, table_row (replicate (length headers) ''---'')]
                    else []) @ rows)))))))"

text \<open>
  \<open>etree.tostring(table_element, encoding="unicode")\<close> followed by
  \<open>BeautifulSoup(table_html, "html.parser")\<close> are library calls, modelled on the tree.

  \<^item> lxml writes an element under its local name, after the prefix of its namespace and a
    colon when the namespace is bound to a prefix; html.parser lower-cases the name.
    That is \<open>html_name\<close>. The local name is what follows the namespace in the tag.
  \<^item> Every text and every tail is one string of the parsed document; the tail of the
    table element itself is written after its end tag.
  \<^item> bs4 closes a tag named in \<open>empty_element_tags\<close> as soon as it is opened and ignores
    its end tag: what lxml wrote inside the element follows the tag as its siblings,
    and a string before the ignored end tag runs on into the string after it
    (\<open>merge_strings\<close>).
  \<^item> html.parser reads what follows the start tag of a \<open>script\<close> or \<open>style\<close> element as one
    piece of raw text, up to the end tag: the tag holds no tag, and one string if there is
    any text or child.
  \<^item> A string read while a tag named in \<open>string_containers\<close> is open gets that tag's
    string class (bs4 4.10 and later), so it is a \<open>SpecialString\<close>.

  Left out: an element whose serialised name does not begin with an ASCII letter (its
  tags are read as text), a \<open>script\<close> or \<open>style\<close> element below another of the same name
  (the raw text stops at the first end tag), an empty element of a name in
  \<open>empty_element_tags\<close> inside a non-empty one of the same name, and the raw-text
  elements that later versions of html.parser add to \<open>script\<close> and \<open>style\<close>. The
  character escapes that lxml writes are read back by html.parser as the characters
  they stand for. A string of white space only is kept as it is: bs4 shortens it to one
  space or line break, which \<open>get_text(strip=True)\<close> drops as well.
\<close>

definition local_name :: "string \<Rightarrow> string" where
  "local_name t = rev (takeWhile (\<lambda>c. c \<noteq> CHR ''}'') (rev t))"

definition qualified_name :: "element \<Rightarrow> string" where
  "qualified_name element =
     (case prefix_of element of
        None \<Rightarrow> local_name (tag element)
      | Some p \<Rightarrow> p @ '':'' @ local_name (tag element))"

definition html_name :: "element \<Rightarrow> string" where
  "html_name element = lower (qualified_name element)"

definition cdata_content_elements :: "string list" where
  "cdata_content_elements = [''script'', ''style'']"

definition empty_element_tags :: "string list" where
  "empty_element_tags =
     [''area'', ''base'', ''br'', ''col'', ''embed'', ''hr'', ''img'', ''input'', ''keygen'',
      ''link'', ''menuitem'', ''meta'', ''param'', ''source'', ''track'', ''wbr'',
      ''basefont'', ''bgsound'', ''command'', ''frame'', ''image'', ''isindex'', ''nextid'',
      ''spacer'']"

definition string_containers :: "string list" where
  "string_containers = [''rt'', ''rp'', ''style'', ''script'', ''template'']"

definition text_node :: "bool \<Rightarrow> string option \<Rightarrow> soup list" where
  "text_node inside t =
     (case t of
        None \<Rightarrow> []
      | Some s \<Rightarrow> if s = [] then [] else [if inside then SpecialString else NavigableString s])"

fun merge_strings :: "soup list \<Rightarrow> soup list" where
  "merge_strings (NavigableString s # NavigableString t # rest) =
     merge_strings (NavigableString (s @ t) # rest)"
| "merge_strings (SpecialString # SpecialString # rest) = merge_strings (SpecialString # rest)"
| "merge_strings (node # rest) = node # merge_strings rest"
| "merge_strings [] = []"

fun to_soup :: "bool \<Rightarrow> element \<Rightarrow> soup list" where
  "to_soup inside (Element t pf a x cs ta) =
     (let nm = html_name (Element t pf a x cs ta)
      in if nm \<in> set cdata_content_elements
         then [Tag nm (if or_empty x = [] \<and> cs = [] then [] else [SpecialString])]
         else if nm \<in> set empty_element_tags
         then Tag nm []
              # text_node inside x
              @ concat (map (\<lambda>c. to_soup inside c @ text_node inside (tail c)) cs)
         else [Tag nm
                 (merge_strings
                    (text_node (inside \<or> nm \<in> set string_containers) x
                     @ concat (map (\<lambda>c. to_soup (inside \<or> nm \<in> set string_containers) c
                                         @ text_node (inside \<or> nm \<in> set string_containers) (tail c))
                                   cs)))])"

definition BeautifulSoup :: "element \<Rightarrow> soup" where
  "BeautifulSoup table_element =
     Tag ''[document]''
       (merge_strings (to_soup False table_element @ text_node False (tail table_element)))"

definition table_to_markdown :: "element \<Rightarrow> string" where
  "table_to_markdown table_element = table_to_markdown_soup (BeautifulSoup table_element)"

definition table_to_markdown_result :: "element \<Rightarrow> error + string" where
  "table_to_markdown_result table_element =
     table_to_markdown_soup_result (BeautifulSoup table_element)"

text \<open>
  The tags with a given name at or below a list of nodes, in document order: what
  \<open>find\<close> and \<open>find_all\<close> search.
\<close>

definition tags_named :: "string \<Rightarrow> soup list \<Rightarrow> soup list" where
  "tags_named nm nodes = filter (is_tag_named nm) (concat (map (\<lambda>c. c # descendants c) nodes))"

text \<open>
  \<open>element.xpath(".//name")\<close>: the elements below \<open>element\<close>, in document order, whose
  tag is \<open>name\<close> in no namespace.
\<close>

fun element_descendants :: "element \<Rightarrow> element list" where
  "element_descendants (Element t pf a x cs ta) =
     concat (map (\<lambda>c. c # element_descendants c) cs)"

definition xpath_descendants :: "element \<Rightarrow> string \<Rightarrow> element list" where
  "xpath_descendants element nm = filter (\<lambda>d. tag d = nm) (element_descendants element)"

definition item_text :: "element \<Rightarrow> string" where
  "item_text item =
     (if or_empty (text_of item) \<noteq> [] then strip (or_empty (text_of item)) else [])
     @ concat (map (\<lambda>content. if or_empty (text_of content) \<noteq> []
                                then '' '' @ strip (or_empty (text_of content)) else [])
                   (xpath_descendants item ''content''))"

definition convert_list :: "element \<Rightarrow> string" where
  "convert_list list_element =
     join ''\<newline>''
       (map (\<lambda>item. ''* '' @ item_text item)
            (filter (\<lambda>item. item_text item \<noteq> []) (xpath_descendants list_element ''item'')))"

text \<open>
  The names under which the elements of a subtree, the root included, are serialised and
  read by html.parser.
\<close>

definition html_names :: "element \<Rightarrow> string list" where
  "html_names element = map html_name (element # element_descendants element)"

section \<open>The element renderer and the tree walk\<close>

text \<open>The tags that are rendered even when they have no text of their own.\<close>

definition structural_tags :: "string list" where
  "structural_tags = [''section'', ''subsection'', ''paragraph'', ''subparagraph'',
                      ''table'', ''list'', ''title'', ''note'', ''notes'']"

text \<open>The tail of an element, as it is appended to the element's fragment.\<close>

definition tail_text :: "element \<Rightarrow> string" where
  "tail_text element =
     (if or_empty (tail element) \<noteq> [] \<and> strip (or_empty (tail element)) \<noteq> []
      then strip (or_empty (tail element)) @ '' '' else [])"

text \<open>A header line of a section or subsection, from its number and heading.\<close>

definition header_line :: "string \<Rightarrow> string \<Rightarrow> string" where
  "header_line num heading =
     (if num \<noteq> [] then num @ '' '' else []) @ (if heading \<noteq> [] then heading else [])"

text \<open>The lines of a walked child of a note, the blank ones left out, as a blockquote.\<close>

definition blockquote_child :: "string \<Rightarrow> string" where
  "blockquote_child child_result =
     (if child_result \<noteq> [] then
        (let blockquote_lines = map (\<lambda>line. ''> '' @ line)
                                   (filter (\<lambda>line. strip line \<noteq> []) (split child_result ''\<newline>''))
         in if blockquote_lines \<noteq> [] then join ''\<newline>'' blockquote_lines @ ''\<newline>'' else [])
      else [])"

text \<open>
  The loop \<open>for child in element: if get_tag_name(child) not in tags: ...
  process_xml_tree(child, level + 1)\<close> of the container branches: the walked children,
  in order. \<open>walk\<close> stands for the recursive call.
\<close>

definition walk_except :: "string list \<Rightarrow> element \<Rightarrow> (element \<Rightarrow> string) \<Rightarrow> string list" where
  "walk_except tags element walk =
     map walk (filter (\<lambda>child. get_tag_name child \<notin> set tags) (children element))"

lemma walk_except_cong [fundef_cong]:
  assumes "tags = tags'" and "element = element'"
    and "\<And>child. child \<in> set (children element') \<Longrightarrow> walk child = walk' child"
  shows "walk_except tags element walk = walk_except tags' element' walk'"
  using assms by (simp add: walk_except_def)

text \<open>The guard \<open>Skip empty elements\<close> at the head of \<open>element_to_markdown\<close>.\<close>

definition skip_empty :: "element \<Rightarrow> bool" where
  "skip_empty element =
     (strip (or_empty (text_of element)) = [] \<and> get_tag_name element \<notin> set structural_tags)"

text \<open>
  The chain \<open>if tag == ... elif ...\<close> of \<open>element_to_markdown\<close>: what it adds to
  \<open>result\<close>. \<open>parent\<close> is what \<open>element.getparent()\<close> returns, and \<open>walk child\<close> stands
  for \<open>process_xml_tree(child, level + 1)\<close>.
\<close>

definition tag_branch :: "element option \<Rightarrow> element \<Rightarrow> (element \<Rightarrow> string) \<Rightarrow> string" where
  "tag_branch parent element walk =
     (let tag = get_tag_name element;
          text = or_empty (text_of element)
      in if tag = ''title'' \<and> (case parent of None \<Rightarrow> False
                                              | Some p \<Rightarrow> get_tag_name p = ''uscDoc'') then
           (let num = get_child_text element ''num'';
                heading = get_child_text element ''heading''
            in (if num \<noteq> [] then ''# '' @ num @ ''\<newline>\<newline>'' else [])
               @ (if heading \<noteq> [] then ''# '' @ heading @ ''\<newline>\<newline>'' else []))
         else if tag = ''section'' then
           (let num = get_child_text element ''num'';
                heading = get_child_text element ''heading'';
                content = concat (walk_except [''num'', ''heading''] element walk);
                header = header_line num heading
            in (if header \<noteq> [] then ''\<newline>## '' @ header @ ''\<newline>\<newline>'' else []) @ content)
         else if tag = ''subsection'' then
           (let num = get_child_text element ''num'';
                heading = get_child_text element ''heading'';
                content = concat (walk_except [''num'', ''heading''] element walk);
                header = header_line num heading
            in (if header \<noteq> [] then ''\<newline>### '' @ header @ ''\<newline>\<newline>'' else []) @ content)
         else if tag = ''paragraph'' then
           (let num = get_child_text element ''num'';
                content_text = get_child_text element ''content'';
                additional_content = concat (walk_except [''num'', ''content''] element walk);
                result = (if num \<noteq> [] then ''**'' @ num @ ''** '' else [])
                         @ (if content_text \<noteq> [] then content_text @ '' '' else [])
                         @ strip additional_content
            in if strip result \<noteq> [] then result @ ''\<newline>'' else result)
         else if tag = ''subparagraph'' then
           (let num = get_child_text element ''num'';
                content_text = get_child_text element ''content'';
                additional_content = concat (walk_except [''num'', ''content''] element walk);
                result = (if num \<noteq> [] then ''  - **'' @ num @ ''** '' else [])
                         @ (if content_text \<noteq> [] then content_text @ '' '' else [])
                         @ strip additional_content
            in if strip result \<noteq> [] then result @ ''\<newline>'' else result)
         else if tag = ''p'' then
           (if strip text \<noteq> [] then strip text @ '' '' else [])
         else if tag = ''content'' \<or> tag = ''chapeau'' then
           (if strip text \<noteq> [] then strip text @ '' '' else [])
         else if tag = ''table'' then
           (let table_content = table_to_markdown element
            in if table_content \<noteq> [] then table_content @ ''\<newline>'' else [])
         else if tag = ''note'' \<or> tag = ''notes'' then
           (let heading = get_child_text element ''heading''
            in (if heading \<noteq> [] then ''> **'' @ heading @ ''**\<newline>'' else [])
               @ (if strip text \<noteq> []
                  then join ''\<newline>'' (map (\<lambda>line. ''> '' @ line) (split (strip text) ''\<newline>''))
                       @ ''\<newline>''
                  else [])
               @ concat (map blockquote_child (walk_except [''heading''] element walk)))
         else if tag = ''ref'' then
           (let href = (case map_of (attrib element) ''href'' of None \<Rightarrow> [] | Some h \<Rightarrow> h)
            in if href \<noteq> [] \<and> strip text \<noteq> [] then ''['' @ strip text @ '']('' @ href @ '')''
               else if strip text \<noteq> [] then ''*'' @ strip text @ ''*''
               else [])
         else if tag = ''list'' then
           (let list_content = convert_list element
            in if list_content \<noteq> [] then list_content @ ''\<newline>'' else [])
         else if tag \<in> set [''num'', ''heading''] then []
         else if tag = ''meta'' \<or> tag = ''main'' then []
         else if strip text \<noteq> [] then strip text @ '' ''
         else [])"

lemma tag_branch_cong [fundef_cong]:
  assumes "parent = parent'" and "element = element'"
    and "\<And>child. child \<in> set (children element') \<Longrightarrow> walk child = walk' child"
  shows "tag_branch parent element walk = tag_branch parent' element' walk'"
proof -
  have w: "walk_except tags element' walk = walk_except tags element' walk'" for tags
    using assms(3) by (simp add: walk_except_def)
  show ?thesis
    by (simp only: tag_branch_def assms(1,2) w)
qed

text \<open>
  \<open>process_xml_tree\<close> and \<open>element_to_markdown\<close> call each other. The walk passes the
  element itself as the parent of its children. \<open>level\<close> is passed along and never
  read.
\<close>

function process_xml_tree :: "element option \<Rightarrow> element option \<Rightarrow> int \<Rightarrow> string"
and element_to_markdown :: "element option \<Rightarrow> element option \<Rightarrow> int \<Rightarrow> string" where
  "process_xml_tree parent None level = []"
| "process_xml_tree parent (Some element) level =
     (let result = element_to_markdown parent (Some element) level
      in if should_process_children element
         then result @ concat (map (\<lambda>child. process_xml_tree (Some element) (Some child) (level + 1))
                                   (children element))
         else result)"
| "element_to_markdown parent None level = []"
| "element_to_markdown parent (Some element) level =
     (if skip_empty element then []
      else tag_branch parent element
             (\<lambda>child. process_xml_tree (Some element) (Some child) (level + 1))
           @ tail_text element)"
  by pat_completeness auto
termination
proof (relation "measure (\<lambda>x. case x of
                     Inl (parent, element, level) \<Rightarrow> 2 * size_option size element + 1
                   | Inr (parent, element, level) \<Rightarrow> 2 * size_option size element)")
  show "wf (measure (\<lambda>x. case x of
                     Inl (parent, element, level) \<Rightarrow> 2 * size_option size element + 1
                   | Inr (parent, element, level) \<Rightarrow> 2 * size_option size element))"
    by simp
next
  fix parent :: "element option" and element :: element and level :: int
  show "(Inr (parent, Some element, level), Inl (parent, Some element, level))
        \<in> measure (\<lambda>x. case x of
                     Inl (parent, element, level) \<Rightarrow> 2 * size_option size element + 1
                   | Inr (parent, element, level) \<Rightarrow> 2 * size_option size element)"
    by simp
next
  fix parent :: "element option" and element child :: element and level :: int
    and x :: string
  assume "child \<in> set (children element)"
  then have "size child < size element"
    by (cases element) (auto simp: less_Suc_eq_le size_list_estimation')
  then show "(Inl (Some element, Some child, level + 1), Inl (parent, Some element, level))
        \<in> measure (\<lambda>x. case x of
                     Inl (parent, element, level) \<Rightarrow> 2 * size_option size element + 1
                   | Inr (parent, element, level) \<Rightarrow> 2 * size_option size element)"
    by simp
next
  fix parent :: "element option" and element child :: element and level :: int
  assume "child \<in> set (children element)"
  then have "size child < size element"
    by (cases element) (auto simp: less_Suc_eq_le size_list_estimation')
  then show "(Inl (Some element, Some child, level + 1), Inr (parent, Some element, level))
        \<in> measure (\<lambda>x. case x of
                     Inl (parent, element, level) \<Rightarrow> 2 * size_option size element + 1
                   | Inr (parent, element, level) \<Rightarrow> 2 * size_option size element)"
    by simp
qed

text \<open>
  The equations of the walk call themselves on the children, so they are unfolded by
  hand, one element at a time.
\<close>

declare process_xml_tree.simps(2) [simp del]
declare element_to_markdown.simps(2) [simp del]

section \<open>Chunks of paragraphs\<close>

text \<open>
  \<open>split_by_paragraphs\<close> of the formatting pipeline. The loop over the paragraphs carries
  the list of finished chunks and the chunk being filled; a Python string is true when
  it is not empty.
\<close>

fun paragraphs_loop :: "int \<Rightarrow> string list \<Rightarrow> string list \<Rightarrow> string \<Rightarrow> string list \<times> string" where
  "paragraphs_loop max_chunk_size [] chunks current_chunk = (chunks, current_chunk)"
| "paragraphs_loop max_chunk_size (para # paragraphs) chunks current_chunk =
     (if int (length current_chunk) + int (length para) + 2 > max_chunk_size \<and> current_chunk \<noteq> []
      then paragraphs_loop max_chunk_size paragraphs (chunks @ [current_chunk]) para
      else paragraphs_loop max_chunk_size paragraphs chunks
             ((if current_chunk \<noteq> [] then current_chunk @ ''\<newline>\<newline>'' else current_chunk) @ para))"

definition split_by_paragraphs :: "string \<Rightarrow> int \<Rightarrow> string list" where
  "split_by_paragraphs text max_chunk_size =
     (let paragraphs = split text ''\<newline>\<newline>'';
          (chunks, current_chunk) = paragraphs_loop max_chunk_size paragraphs [] []
      in if current_chunk \<noteq> [] then chunks @ [current_chunk] else chunks)"

section \<open>Which elements the walk renders\<close>

text \<open>
  The calls of the renderer during a walk. An element of the tree is named by its
  path from the root of the walk, the list of the child positions taken.
  \<open>process_xml_tree_calls path element\<close> lists the paths of the elements on which
  \<open>process_xml_tree\<close>, called on the element at \<open>path\<close>, calls
  \<open>element_to_markdown\<close>, in the order of the calls; \<open>element_to_markdown_calls\<close> lists
  them for one call of \<open>element_to_markdown\<close>, itself included. The two functions follow
  the calls of the source: \<open>process_xml_tree\<close> calls the renderer on its element, then
  itself on every child when \<open>should_process_children\<close> holds; the renderer returns at
  the guard for empty elements, or calls \<open>process_xml_tree\<close> in the loops of the section,
  subsection, paragraph, subparagraph and note branches, and nowhere else (tables and
  lists go to their converters, which never call the renderer). \<open>calls_except\<close> is such
  a loop over the children whose tag is not among \<open>tags\<close>.
\<close>

type_synonym path = "nat list"

definition calls_except ::
  "string list \<Rightarrow> path \<Rightarrow> element \<Rightarrow> (path \<Rightarrow> element \<Rightarrow> path list) \<Rightarrow> path list" where
  "calls_except tags path element walk =
     concat (map (\<lambda>(i, child). walk (path @ [i]) child)
                 (filter (\<lambda>(i, child). get_tag_name child \<notin> set tags)
                         (enumerate 0 (children element))))"

lemma calls_except_cong [fundef_cong]:
  assumes "tags = tags'" and "path = path'" and "element = element'"
    and "\<And>i child. child \<in> set (children element') \<Longrightarrow> walk (path' @ [i]) child = walk' (path' @ [i]) child"
  shows "calls_except tags path element walk = calls_except tags' path' element' walk'"
proof -
  have "(i, child) \<in> set (enumerate 0 (children element')) \<Longrightarrow> child \<in> set (children element')"
    for i child
    by (auto simp: in_set_enumerate_eq)
  then show ?thesis
    unfolding calls_except_def assms(1,2,3)
    by (intro arg_cong [where f = concat] map_cong refl) (auto simp: assms(4))
qed

function process_xml_tree_calls :: "path \<Rightarrow> element \<Rightarrow> path list"
and element_to_markdown_calls :: "path \<Rightarrow> element \<Rightarrow> path list" where
  "process_xml_tree_calls path element =
     element_to_markdown_calls path element
     @ (if should_process_children element
        then calls_except [] path element process_xml_tree_calls
        else [])"
| "element_to_markdown_calls path element =
     path #
     (if skip_empty element then []
      else (let tag = get_tag_name element
            in if tag = ''section'' \<or> tag = ''subsection''
               then calls_except [''num'', ''heading''] path element process_xml_tree_calls
               else if tag = ''paragraph'' \<or> tag = ''subparagraph''
               then calls_except [''num'', ''content''] path element process_xml_tree_calls
               else if tag = ''note'' \<or> tag = ''notes''
               then calls_except [''heading''] path element process_xml_tree_calls
               else []))"
  by pat_completeness auto
termination
proof (relation "measure (\<lambda>x. case x of Inl (path, element) \<Rightarrow> 2 * size element + 1
                                       | Inr (path, element) \<Rightarrow> 2 * size element)",
       goal_cases)
  case 1
  show ?case by simp
next
  case (2 path element)
  show ?case by simp
next
  case (3 path element i child)
  then have "size child < size element"
    by (cases element) (auto simp: less_Suc_eq_le size_list_estimation')
  then show ?case by simp
next
  case (4 path element tag i child)
  then have "size child < size element"
    by (cases element) (auto simp: less_Suc_eq_le size_list_estimation')
  then show ?case by simp
next
  case (5 path element tag i child)
  then have "size child < size element"
    by (cases element) (auto simp: less_Suc_eq_le size_list_estimation')
  then show ?case by simp
next
  case (6 path element tag i child)
  then have "size child < size element"
    by (cases element) (auto simp: less_Suc_eq_le size_list_estimation')
  then show ?case by simp
qed

declare process_xml_tree_calls.simps [simp del]
declare element_to_markdown_calls.simps [simp del]

text \<open>
  Whether the walk of \<open>element\<close> goes on into its child: the children that a container
  tag hands to the walk, and all the children of the other tags but tables and lists.
  \<open>reached element q\<close> holds when every step of the path \<open>q\<close> from \<open>element\<close> is such a
  step.
\<close>

definition walks_child :: "element \<Rightarrow> element \<Rightarrow> bool" where
  "walks_child element child =
     (let tag = get_tag_name element; child_tag = get_tag_name child
      in if tag = ''section'' \<or> tag = ''subsection''
         then child_tag \<noteq> ''num'' \<and> child_tag \<noteq> ''heading''
         else if tag = ''paragraph'' \<or> tag = ''subparagraph''
         then child_tag \<noteq> ''num'' \<and> child_tag \<noteq> ''content''
         else if tag = ''note'' \<or> tag = ''notes''
         then child_tag \<noteq> ''heading''
         else tag \<noteq> ''table'' \<and> tag \<noteq> ''list'')"

fun reached :: "element \<Rightarrow> path \<Rightarrow> bool" where
  "reached element [] = True"
| "reached element (i # q) =
     (i < length (children element)
      \<and> walks_child element (children element ! i)
      \<and> reached (children element ! i) q)"

section \<open>The tax agent: citations and relevant sections\<close>

text \<open>
  The regular expressions of the agent are modelled by the scanners below, which do what
  \<open>re\<close> does with them: a search tries the pattern at every position from the left, and
  \<open>sub\<close> and \<open>findall\<close> go on after the end of a match.

  \<open>heading_marks s\<close> matches \<open>#{1,4}\s\<close> at the head of \<open>s\<close> and returns the hashes and
  what follows them. At a run of five hashes or more the pattern fails, as no shorter
  run is followed by whitespace; it matches again from the second hash on.
\<close>

definition heading_marks :: "string \<Rightarrow> (string \<times> string) option" where
  "heading_marks s =
     (let hashes = takeWhile (\<lambda>c. c = CHR ''#'') s;
          after = dropWhile (\<lambda>c. c = CHR ''#'') s
      in if 1 \<le> length hashes \<and> length hashes \<le> 4 \<and> after \<noteq> [] \<and> isspace (hd after)
         then Some (hashes, after) else None)"

text \<open>
  \<open>(?:\(([^)]+)\))?\<close> at the head of \<open>s\<close>: the text between the parentheses when the
  group matches, and what follows the match.
\<close>

definition paren_group :: "string \<Rightarrow> string option \<times> string" where
  "paren_group s =
     (case s of
        [] \<Rightarrow> (None, s)
      | c # r \<Rightarrow>
          (let inner = takeWhile (\<lambda>x. x \<noteq> CHR '')'') r;
               close = dropWhile (\<lambda>x. x \<noteq> CHR '')'') r
           in if c = CHR ''('' \<and> inner \<noteq> [] \<and> close \<noteq> []
              then (Some inner, tl close) else (None, s)))"

text \<open>
  \<open>\<section>(\d+)(?:\(([^)]+)\))?\<close> at the head of \<open>s\<close>: the two groups and what follows the
  match.
\<close>

definition section_number :: "string \<Rightarrow> (string \<times> string option \<times> string) option" where
  "section_number s =
     (case s of
        [] \<Rightarrow> None
      | c # r \<Rightarrow>
          (let digits = takeWhile isdigit r
           in if c = CHR 0xA7 \<and> digits \<noteq> []
              then (case paren_group (dropWhile isdigit r) of
                      (subsection, rest) \<Rightarrow> Some (digits, subsection, rest))
              else None))"

text \<open>\<open>re.search\<close> of that pattern: the groups of the leftmost match.\<close>

fun search_section_number :: "string \<Rightarrow> (string \<times> string option) option" where
  "search_section_number [] = None"
| "search_section_number (c # cs) =
     (case section_number (c # cs) of
        Some (digits, subsection, rest) \<Rightarrow> Some (digits, subsection)
      | None \<Rightarrow> search_section_number cs)"

text \<open>
  \<open>#{1,4}\s+\<close> and \<open>#{1,4}\s+\<section>\d+(?:\([^)]+\))?\<close> at the head of \<open>s\<close>: what follows the
  match.
\<close>

definition marks_and_space :: "string \<Rightarrow> string option" where
  "marks_and_space s =
     (case heading_marks s of
        None \<Rightarrow> None
      | Some (hashes, after) \<Rightarrow> Some (dropWhile isspace after))"

definition marks_and_number :: "string \<Rightarrow> string option" where
  "marks_and_number s =
     (case marks_and_space s of
        None \<Rightarrow> None
      | Some after \<Rightarrow>
          (case section_number after of
             None \<Rightarrow> None
           | Some (digits, subsection, rest) \<Rightarrow> Some rest))"

lemma paren_group_length: "paren_group s = (g, rest) \<Longrightarrow> length rest \<le> length s"
proof (cases s)
  case Nil
  then show "paren_group s = (g, rest) \<Longrightarrow> length rest \<le> length s"
    by (simp add: paren_group_def)
next
  case (Cons c r)
  have "length (tl (dropWhile (\<lambda>x. x \<noteq> CHR '')'') r)) \<le> length r"
    using length_dropWhile_le [of "\<lambda>x. x \<noteq> CHR '')''" r] by simp
  then show "paren_group s = (g, rest) \<Longrightarrow> length rest \<le> length s"
    unfolding Cons by (auto simp: paren_group_def Let_def split: if_splits)
qed

lemma section_number_length:
  "section_number s = Some (digits, subsection, rest) \<Longrightarrow> length rest < length s"
proof (cases s)
  case Nil
  then show "section_number s = Some (digits, subsection, rest) \<Longrightarrow> length rest < length s"
    by (simp add: section_number_def)
next
  case (Cons c r)
  show "section_number s = Some (digits, subsection, rest) \<Longrightarrow> length rest < length s"
    unfolding Cons
    using paren_group_length [of "dropWhile isdigit r" "subsection" rest]
          length_dropWhile_le [of isdigit r]
    by (auto simp: section_number_def Let_def split: if_splits prod.splits)
qed

lemma heading_marks_length:
  "heading_marks s = Some (hashes, after) \<Longrightarrow> length after < length s"
proof -
  assume "heading_marks s = Some (hashes, after)"
  then have h: "takeWhile (\<lambda>c. c = CHR ''#'') s \<noteq> []" and a: "after = dropWhile (\<lambda>c. c = CHR ''#'') s"
    by (auto simp: heading_marks_def Let_def split: if_splits)
  have "length (takeWhile (\<lambda>c. c = CHR ''#'') s) + length after = length s"
    unfolding a by (metis length_append takeWhile_dropWhile_id)
  with h show ?thesis
    by (cases "takeWhile (\<lambda>c. c = CHR ''#'') s") auto
qed

lemma marks_and_space_length:
  assumes "marks_and_space s = Some rest"
  shows "length rest < length s"
proof -
  from assms obtain hashes after where h: "heading_marks s = Some (hashes, after)"
      and r: "rest = dropWhile isspace after"
    by (auto simp: marks_and_space_def split: option.splits)
  have "length rest \<le> length after"
    unfolding r by (rule length_dropWhile_le)
  also have "\<dots> < length s"
    using h by (rule heading_marks_length)
  finally show ?thesis .
qed

lemma marks_and_number_length:
  assumes "marks_and_number s = Some rest"
  shows "length rest < length s"
proof -
  from assms obtain after digits sub where a: "marks_and_space s = Some after"
      and n: "section_number after = Some (digits, sub, rest)"
    by (auto simp: marks_and_number_def split: option.splits)
  have "length rest < length after"
    using n by (rule section_number_length)
  also have "\<dots> < length s"
    using a by (rule marks_and_space_length)
  finally show ?thesis .
qed

text \<open>
  \<open>re.sub(pattern, "", s)\<close> for the two patterns: the matches are cut out, from the left,
  and the scan goes on after each match.
\<close>

function remove_marks_and_number :: "string \<Rightarrow> string" where
  "remove_marks_and_number [] = []"
| "remove_marks_and_number (c # cs) =
     (case marks_and_number (c # cs) of
        Some rest \<Rightarrow> remove_marks_and_number rest
      | None \<Rightarrow> c # remove_marks_and_number cs)"
  by pat_completeness auto
termination
  by (relation "measure length") (auto dest: marks_and_number_length)

function remove_marks_and_space :: "string \<Rightarrow> string" where
  "remove_marks_and_space [] = []"
| "remove_marks_and_space (c # cs) =
     (case marks_and_space (c # cs) of
        Some rest \<Rightarrow> remove_marks_and_space rest
      | None \<Rightarrow> c # remove_marks_and_space cs)"
  by pat_completeness auto
termination
  by (relation "measure length") (auto dest: marks_and_space_length)

definition extract_citation :: "string \<Rightarrow> string" where
  "extract_citation heading =
     (case search_section_number heading of
        Some (section, group2) \<Rightarrow>
          (let subsection = or_empty group2;
               heading_text = strip (remove_marks_and_number heading)
           in ''26 USC '' @ [CHR 0xA7] @ section
              @ (if subsection \<noteq> [] then ''('' @ subsection @ '')'' else [])
              @ '' ['' @ heading_text @ '']'')
      | None \<Rightarrow>
          (let clean_heading = strip (remove_marks_and_space heading)
           in ''US Tax Code ['' @ clean_heading @ '']''))"

text \<open>
  The pattern of \<open>_find_relevant_sections\<close>,
  \<open>(#{1,4}\s[^\n]+)(?:\n\n)((?:.+?)(?=\n#{1,4}\s|\Z))\<close> with \<open>re.DOTALL\<close>.
  \<open>at_next_heading s\<close> is its lookahead: the end of the text, or a line break followed by
  heading marks. \<open>section_content acc s\<close> is the lazy \<open>.+?\<close> once it holds \<open>acc\<close>: it
  takes characters until the lookahead holds. \<open>match_section s\<close> is the pattern at the
  head of \<open>s\<close>: the two groups and what follows the match.
\<close>

definition at_next_heading :: "string \<Rightarrow> bool" where
  "at_next_heading s =
     (case s of
        [] \<Rightarrow> True
      | c # r \<Rightarrow> c = CHR ''\<newline>'' \<and> heading_marks r \<noteq> None)"

fun section_content :: "string \<Rightarrow> string \<Rightarrow> string \<times> string" where
  "section_content acc [] = (acc, [])"
| "section_content acc (c # cs) =
     (if at_next_heading (c # cs) then (acc, c # cs) else section_content (acc @ [c]) cs)"

definition match_section :: "string \<Rightarrow> (string \<times> string \<times> string) option" where
  "match_section s =
     (case heading_marks s of
        None \<Rightarrow> None
      | Some (hashes, after) \<Rightarrow>
          (let title = takeWhile (\<lambda>c. c \<noteq> CHR ''\<newline>'') (tl after);
               body = dropWhile (\<lambda>c. c \<noteq> CHR ''\<newline>'') (tl after)
           in if title \<noteq> [] \<and> prefix ''\<newline>\<newline>'' body
              then (case drop 2 body of
                      [] \<Rightarrow> None
                    | c # cs \<Rightarrow>
                        (case section_content [c] cs of
                           (content, rest) \<Rightarrow> Some (hashes @ [hd after] @ title, content, rest)))
              else None))"

lemma section_content_length: "section_content acc s = (content, rest) \<Longrightarrow> length rest \<le> length s"
  by (induction acc s rule: section_content.induct) (auto split: if_splits)

lemma match_section_length:
  assumes "match_section s = Some (heading, content, rest)"
  shows "length rest < length s"
proof -
  from assms obtain hashes after where h: "heading_marks s = Some (hashes, after)"
    by (auto simp: match_section_def split: option.splits)
  let ?body = "dropWhile (\<lambda>c. c \<noteq> CHR ''\<newline>'') (tl after)"
  from assms h obtain c cs where b: "drop 2 ?body = c # cs"
      and r: "section_content [c] cs = (content, rest)"
    by (auto simp: match_section_def Let_def split: if_splits list.splits prod.splits)
  have "length rest \<le> length cs"
    using r by (rule section_content_length)
  also have "length cs < length (drop 2 ?body)"
    using b by simp
  also have "\<dots> \<le> length ?body"
    by simp
  also have "\<dots> \<le> length (tl after)"
    by (rule length_dropWhile_le)
  also have "\<dots> \<le> length after"
    by simp
  also have "\<dots> < length s"
    using h by (rule heading_marks_length)
  finally show ?thesis .
qed

text \<open>\<open>re.findall\<close> of the pattern: the two groups of every match, from the left.\<close>

function findall_sections :: "string \<Rightarrow> (string \<times> string) list" where
  "findall_sections [] = []"
| "findall_sections (c # cs) =
     (case match_section (c # cs) of
        Some (heading, content, rest) \<Rightarrow> (heading, content) # findall_sections rest
      | None \<Rightarrow> findall_sections cs)"
  by pat_completeness auto
termination
  by (relation "measure length") (auto dest: match_section_length)

text \<open>\<open>s.split()\<close>: the words between runs of whitespace.\<close>

fun split_words :: "string \<Rightarrow> string \<Rightarrow> string list" where
  "split_words cur [] = (if cur \<noteq> [] then [cur] else [])"
| "split_words cur (c # cs) =
     (if isspace c then (if cur \<noteq> [] then cur # split_words [] cs else split_words [] cs)
      else split_words (cur @ [c]) cs)"

definition tax_terms :: "string list" where
  "tax_terms = [''deduction'', ''credit'', ''income'', ''tax'', ''filing'', ''return'',
                ''dependent'', ''exemption'', ''liability'', ''asset'', ''charitable'',
                ''business'', ''expense'', ''capital'', ''gain'', ''loss'', ''dividend'',
                ''interest'', ''retirement'', ''IRA'', ''401k'', ''estate'', ''gift'']"

definition extract_key_terms :: "string \<Rightarrow> string list" where
  "extract_key_terms question =
     (let found_terms = filter (\<lambda>term. contains (lower question) (lower term)) tax_terms
      in if found_terms = []
         then filter (\<lambda>word. length word > 4
                            \<and> lower word \<notin> set [''what'', ''where'', ''when'', ''which'',
                                                  ''there'', ''their'', ''about''])
                     (split_words [] question)
         else found_terms)"

text \<open>A record of \<open>relevant_sections\<close>.\<close>

record relevant_section =
  heading :: string
  content :: string
  citation :: string
  relevance :: int

definition relevance_score :: "string list \<Rightarrow> string \<Rightarrow> string \<Rightarrow> int" where
  "relevance_score key_terms h c =
     int (length (filter (\<lambda>term. contains (lower c) (lower term)
                                \<or> contains (lower h) (lower term)) key_terms))"

text \<open>
  \<open>_find_relevant_sections\<close>; \<open>tax_code_content\<close> is the field of the agent, and \<open>h\<close>
  and \<open>c\<close> are the heading and the content of a match. Python's sort
  is stable and stays so with \<open>reverse=True\<close>: it is the stable sort on the negated key.
\<close>

definition find_relevant_sections :: "string \<Rightarrow> string \<Rightarrow> relevant_section list" where
  "find_relevant_sections tax_code_content question =
     (let key_terms = extract_key_terms question;
          sections = findall_sections tax_code_content;
          relevant_sections =
            map (\<lambda>(h, c).
                   \<lparr>heading = h, content = take 500 c,
                    citation = extract_citation h,
                    relevance = relevance_score key_terms h c\<rparr>)
                (filter (\<lambda>(h, c). relevance_score key_terms h c > 0) sections)
      in take 3 (sort_key (\<lambda>x. - relevance x) relevant_sections))"

section \<open>The clean-up of the converted text\<close>

text \<open>
  The four steps that \<open>convert_xml_to_markdown\<close> applies to the text of the walk, in
  order. The substitutions are modelled by scanners that do what \<open>re.sub\<close> does: the
  pattern is tried at every position from the left, and the scan goes on after a match.

  \<open>re.sub(r"\n{3,}", "\n\n", s)\<close>: a run of three line breaks or more becomes two.
\<close>

function collapse_newlines :: "string \<Rightarrow> string" where
  "collapse_newlines [] = []"
| "collapse_newlines (c # cs) =
     (if c = CHR ''\<newline>'' \<and> 2 \<le> length (takeWhile (\<lambda>x. x = CHR ''\<newline>'') cs)
      then ''\<newline>\<newline>'' @ collapse_newlines (dropWhile (\<lambda>x. x = CHR ''\<newline>'') cs)
      else c # collapse_newlines cs)"
  by pat_completeness auto
termination
  by (relation "measure length") (auto simp: less_Suc_eq_le length_dropWhile_le)

text \<open>\<open>"\n".join([line.strip() for line in s.split("\n")])\<close>.\<close>

definition strip_lines :: "string \<Rightarrow> string" where
  "strip_lines s = join ''\<newline>'' (map strip (split s ''\<newline>''))"

text \<open>
  \<open>\n\n(#+\s)\<close> at the head of \<open>s\<close>: the group, that is the hashes and the whitespace
  character after them, and what follows the match.
\<close>

definition blank_heading :: "string \<Rightarrow> (string \<times> string) option" where
  "blank_heading s =
     (let hashes = takeWhile (\<lambda>c. c = CHR ''#'') (drop 2 s);
          after = dropWhile (\<lambda>c. c = CHR ''#'') (drop 2 s)
      in if prefix ''\<newline>\<newline>'' s \<and> hashes \<noteq> [] \<and> after \<noteq> [] \<and> isspace (hd after)
         then Some (hashes @ [hd after], tl after) else None)"

lemma blank_heading_length:
  assumes "blank_heading s = Some (group1, rest)"
  shows "length rest < length s"
proof -
  let ?after = "dropWhile (\<lambda>c. c = CHR ''#'') (drop 2 s)"
  from assms have r: "rest = tl ?after" and a: "?after \<noteq> []"
    by (auto simp: blank_heading_def Let_def split: if_splits)
  have "length rest < length ?after"
    using a unfolding r by (cases ?after) auto
  also have "\<dots> \<le> length (drop 2 s)"
    by (rule length_dropWhile_le)
  also have "\<dots> \<le> length s"
    by simp
  finally show ?thesis .
qed

text \<open>\<open>re.sub(r"\n\n(#+\s)", r"\n\1", s)\<close>: the blank line before a heading is removed.\<close>

function unblank_headings :: "string \<Rightarrow> string" where
  "unblank_headings [] = []"
| "unblank_headings (c # cs) =
     (case blank_heading (c # cs) of
        Some (group1, rest) \<Rightarrow> ''\<newline>'' @ group1 @ unblank_headings rest
      | None \<Rightarrow> c # unblank_headings cs)"
  by pat_completeness auto
termination
  by (relation "measure length") (auto dest: blank_heading_length)

text \<open>\<open>re.sub(r" {2,}", " ", s)\<close>: a run of two spaces or more becomes one.\<close>

function collapse_spaces :: "string \<Rightarrow> string" where
  "collapse_spaces [] = []"
| "collapse_spaces (c # cs) =
     (if c = CHR '' '' \<and> 1 \<le> length (takeWhile (\<lambda>x. x = CHR '' '') cs)
      then CHR '' '' # collapse_spaces (dropWhile (\<lambda>x. x = CHR '' '') cs)
      else c # collapse_spaces cs)"
  by pat_completeness auto
termination
  by (relation "measure length") (auto simp: less_Suc_eq_le length_dropWhile_le)

definition post_process :: "string \<Rightarrow> string" where
  "post_process markdown_content =
     collapse_spaces (unblank_headings (strip_lines (collapse_newlines markdown_content)))"

section \<open>Properties of the table conversion\<close>

text \<open>
  \<open>find\<close> and \<open>find_all\<close> look at the tags only, so merging strings and adding strings
  changes nothing for them.
\<close>

lemma find_filter:
  "find P xs = (case filter P xs of [] \<Rightarrow> None | x # r \<Rightarrow> Some x)"
  by (induction xs) simp_all


lemma find_tag_tags_named:
  "find_tag (Tag n nodes) nm = (case tags_named nm nodes of [] \<Rightarrow> None | d # r \<Rightarrow> Some d)"
  by (simp only: find_tag_def tags_named_def find_filter [of "is_tag_named nm"] descendants.simps)

lemma tags_named_Nil: "tags_named nm [] = []"
  by (simp add: tags_named_def)

lemma tags_named_append: "tags_named nm (xs @ ys) = tags_named nm xs @ tags_named nm ys"
  by (simp add: tags_named_def)

lemma tags_named_Tag:
  "tags_named nm (Tag m cs # xs)
   = (if m = nm then [Tag m cs] else []) @ tags_named nm cs @ tags_named nm xs"
  by (simp add: tags_named_def)

lemma tags_named_NavigableString: "tags_named nm (NavigableString s # xs) = tags_named nm xs"
  by (simp add: tags_named_def)

lemma tags_named_SpecialString: "tags_named nm (SpecialString # xs) = tags_named nm xs"
  by (simp add: tags_named_def)

lemma tags_named_text_node: "tags_named nm (text_node i t) = []"
  by (simp add: tags_named_def text_node_def split: option.splits)

lemma tags_named_merge_strings: "tags_named nm (merge_strings xs) = tags_named nm xs"
  by (induction xs rule: merge_strings.induct) (simp_all add: tags_named_def)

lemma tags_named_concat:
  "tags_named nm (concat xss) = concat (map (tags_named nm) xss)"
  by (induction xss) (simp_all add: tags_named_Nil tags_named_append)


text \<open>
  The tail of the table element is a string after the table's end tag: the conversion
  does not depend on it.
\<close>

lemma html_name_tag_only:
  "html_name (Element t pf a x cs ta) = html_name (Element t pf a' x' cs' ta')"
  by (simp add: html_name_def qualified_name_def split: option.splits)

lemma to_soup_tail:
  "to_soup i (Element t pf a x cs ta) = to_soup i (Element t pf a x cs None)"
  by (simp add: html_name_tag_only [of t pf a x cs ta a x cs None])

lemma find_tag_BeautifulSoup:
  "find_tag (BeautifulSoup e) nm
   = (case tags_named nm (to_soup False e) of [] \<Rightarrow> None | d # r \<Rightarrow> Some d)"
  by (simp add: BeautifulSoup_def find_tag_tags_named tags_named_merge_strings
                tags_named_append tags_named_text_node)

lemma find_tag_BeautifulSoup_tail:
  "find_tag (BeautifulSoup (Element t pf a x cs ta)) nm
   = find_tag (BeautifulSoup (Element t pf a x cs None)) nm"
  by (simp only: find_tag_BeautifulSoup to_soup_tail [of False t pf a x cs ta])

lemma table_to_markdown_tail:
  "table_to_markdown (Element t pf a x cs ta) = table_to_markdown (Element t pf a x cs None)"
  by (simp only: table_to_markdown_def table_to_markdown_soup_def
                 find_tag_BeautifulSoup_tail [of t pf a x cs ta])

text \<open>
  Every tag of the parsed document carries the name of an element of the subtree, and
  what lies below a tag of the document lies in the document.
\<close>

lemma html_names_Element:
  "set (html_names (Element t pf a x cs ta))
   = insert (html_name (Element t pf a x cs ta)) (\<Union>c\<in>set cs. set (html_names c))"
  by (auto simp: html_names_def)

lemma tags_named_children:
  "tags_named nm (concat (map (\<lambda>c. to_soup j c @ text_node j (tail c)) cs))
   = concat (map (\<lambda>c. tags_named nm (to_soup j c)) cs)"
  by (simp add: tags_named_concat tags_named_append tags_named_text_node comp_def)

lemma tags_named_Cons_Tag:
  "d \<in> set (tags_named nm (Tag m cs # xs))
   \<Longrightarrow> m = nm \<or> d \<in> set (tags_named nm cs) \<or> d \<in> set (tags_named nm xs)"
  by (auto simp: tags_named_Tag split: if_splits)

lemma tags_named_to_soup:
  "d \<in> set (tags_named nm (to_soup i e)) \<Longrightarrow> nm \<in> set (html_names e)"
proof (induction e arbitrary: i d)
  case (Element t pf a x cs ta)
  let ?e = "Element t pf a x cs ta"
  have below: "nm \<in> set (html_names ?e)"
    if "d \<in> set (concat (map (\<lambda>c. tags_named nm (to_soup j c)) cs))" for j
  proof -
    from that obtain c where c: "c \<in> set cs" and d: "d \<in> set (tags_named nm (to_soup j c))"
      by auto
    have "nm \<in> set (html_names c)"
      using Element.IH [OF c d] .
    with c show ?thesis
      by (auto simp: html_names_Element)
  qed
  have self: "html_name ?e = nm \<Longrightarrow> nm \<in> set (html_names ?e)"
    by (auto simp: html_names_Element)
  consider (raw) "html_name ?e \<in> set cdata_content_elements"
    | (void) "html_name ?e \<notin> set cdata_content_elements" "html_name ?e \<in> set empty_element_tags"
    | (plain) "html_name ?e \<notin> set cdata_content_elements" "html_name ?e \<notin> set empty_element_tags"
    by blast
  then show ?case
  proof cases
    case raw
    let ?c = "if or_empty x = [] \<and> cs = [] then [] else [SpecialString]"
    have ts: "to_soup i ?e = Tag (html_name ?e) ?c # []"
      using raw by (simp add: Let_def)
    have "tags_named nm ?c = []"
      by (simp add: tags_named_SpecialString tags_named_Nil)
    then have "html_name ?e = nm"
      using tags_named_Cons_Tag [of d nm "html_name ?e" ?c "[]"] Element.prems
      by (simp only: ts tags_named_Nil) auto
    then show ?thesis
      by (rule self)
  next
    case void
    let ?r = "text_node i x @ concat (map (\<lambda>c. to_soup i c @ text_node i (tail c)) cs)"
    have ts: "to_soup i ?e = Tag (html_name ?e) [] # ?r"
      using void by (simp add: Let_def)
    have r: "tags_named nm ?r = concat (map (\<lambda>c. tags_named nm (to_soup i c)) cs)"
      by (simp only: tags_named_append tags_named_text_node tags_named_children append_Nil)
    have "html_name ?e = nm \<or> d \<in> set (tags_named nm ?r)"
      using tags_named_Cons_Tag [of d nm "html_name ?e" "[]" ?r] Element.prems
      by (simp only: ts tags_named_Nil) auto
    then show ?thesis
      using self below [of i] by (auto simp only: r)
  next
    case plain
    let ?j = "i \<or> html_name ?e \<in> set string_containers"
    let ?r = "text_node ?j x @ concat (map (\<lambda>c. to_soup ?j c @ text_node ?j (tail c)) cs)"
    have ts: "to_soup i ?e = Tag (html_name ?e) (merge_strings ?r) # []"
      using plain by (simp add: Let_def)
    have r: "tags_named nm (merge_strings ?r) = concat (map (\<lambda>c. tags_named nm (to_soup ?j c)) cs)"
      by (simp only: tags_named_merge_strings tags_named_append tags_named_text_node
                     tags_named_children append_Nil)
    have "html_name ?e = nm \<or> d \<in> set (tags_named nm (merge_strings ?r))"
      using tags_named_Cons_Tag [of d nm "html_name ?e" "merge_strings ?r" "[]"] Element.prems
      by (simp only: ts tags_named_Nil) auto
    then show ?thesis
      using self below [of ?j] by (auto simp only: r)
  qed
qed

lemma descendants_trans:
  "d \<in> set (descendants t) \<Longrightarrow> set (descendants d) \<subseteq> set (descendants t)"
proof (induction t)
  case (Tag n cs)
  from Tag.prems obtain c where c: "c \<in> set cs" and d: "d = c \<or> d \<in> set (descendants c)"
    by auto
  have "set (descendants d) \<subseteq> set (descendants c)"
    using d Tag.IH [OF c] by auto
  with c show ?case
    by auto
qed simp_all

lemma find_tag_Some:
  "find_tag t nm = Some d \<Longrightarrow> d \<in> set (descendants t) \<and> is_tag_named nm d"
  by (auto simp: find_tag_def find_Some_iff)

lemma descendants_BeautifulSoup:
  assumes "d \<in> set (descendants (BeautifulSoup e))" and "is_tag_named nm d"
  shows "nm \<in> set (html_names e)"
proof -
  have "d \<in> set (tags_named nm (merge_strings (to_soup False e @ text_node False (tail e))))"
    using assms by (simp add: BeautifulSoup_def tags_named_def)
  then have "d \<in> set (tags_named nm (to_soup False e))"
    by (simp add: tags_named_merge_strings tags_named_append tags_named_text_node)
  then show ?thesis
    by (rule tags_named_to_soup)
qed

lemma no_table:
  "''table'' \<notin> set (html_names e) \<Longrightarrow> find_tag (BeautifulSoup e) ''table'' = None"
  using descendants_BeautifulSoup [of _ e "''table''"] find_tag_Some [of "BeautifulSoup e" "''table''"]
  by (cases "find_tag (BeautifulSoup e) ''table''") auto

lemma no_group:
  assumes "nm \<notin> set (html_names e)" and "find_tag (BeautifulSoup e) ''table'' = Some table"
  shows "find_tag table nm = None"
proof (cases "find_tag table nm")
  case (Some g)
  have t: "table \<in> set (descendants (BeautifulSoup e))"
    using assms(2) find_tag_Some by blast
  have "g \<in> set (descendants table)" and n: "is_tag_named nm g"
    using Some find_tag_Some by blast+
  then have "g \<in> set (descendants (BeautifulSoup e))"
    using descendants_trans [OF t] by blast
  then have "nm \<in> set (html_names e)"
    using n by (rule descendants_BeautifulSoup)
  with assms(1) show ?thesis
    by simp
qed simp

text \<open>
  The guards \<open>if not table\<close>, \<open>if thead\<close> and \<open>if tbody\<close> keep every method call away
  from \<open>None\<close>.
\<close>

lemma table_to_markdown_soup_result_eq:
  "table_to_markdown_soup_result soup = Inr (table_to_markdown_soup soup)"
  by (simp add: table_to_markdown_soup_result_def table_to_markdown_soup_def header_rows_def
                body_rows_def find_method_def find_all_method_def and_then_def Let_def
           split: option.splits)

text \<open>
  Claim C7. For every element handed to the table conversion: the conversion raises no
  error and returns its string. When no element of the subtree is a header group (none
  is serialised as \<open>thead\<close>), the result holds no header row and no separator row: it is
  the body rows, joined. When none is a body group (\<open>tbody\<close>), it is the header rows,
  joined. When there is neither, and when the parse finds no table element, the result
  is the empty string.
\<close>

theorem table_missing_groups:
  "table_to_markdown_result e = Inr (table_to_markdown e)
   \<and> (''thead'' \<notin> set (html_names e) \<longrightarrow>
        table_to_markdown e
        = join ''\<newline>'' (case find_tag (BeautifulSoup e) ''table'' of
                               None \<Rightarrow> [] | Some table \<Rightarrow> body_rows table))
   \<and> (''tbody'' \<notin> set (html_names e) \<longrightarrow>
        table_to_markdown e
        = join ''\<newline>'' (case find_tag (BeautifulSoup e) ''table'' of
                               None \<Rightarrow> [] | Some table \<Rightarrow> header_rows table))
   \<and> (''thead'' \<notin> set (html_names e) \<and> ''tbody'' \<notin> set (html_names e) \<longrightarrow>
        table_to_markdown e = [])
   \<and> (''table'' \<notin> set (html_names e) \<longrightarrow> table_to_markdown e = [])"
proof -
  have r: "table_to_markdown_result e = Inr (table_to_markdown e)"
    by (simp add: table_to_markdown_result_def table_to_markdown_def
                  table_to_markdown_soup_result_eq)
  have h: "header_rows table = []"
    if "''thead'' \<notin> set (html_names e)" "find_tag (BeautifulSoup e) ''table'' = Some table"
    for table
    using no_group [OF that] by (simp add: header_rows_def)
  have b: "body_rows table = []"
    if "''tbody'' \<notin> set (html_names e)" "find_tag (BeautifulSoup e) ''table'' = Some table"
    for table
    using no_group [OF that] by (simp add: body_rows_def)
  have j: "join ''\<newline>'' [] = []"
    by code_simp
  have 1: "table_to_markdown e
        = join ''\<newline>'' (case find_tag (BeautifulSoup e) ''table'' of
                               None \<Rightarrow> [] | Some table \<Rightarrow> body_rows table)"
    if "''thead'' \<notin> set (html_names e)"
    using h [OF that] by (simp add: table_to_markdown_def table_to_markdown_soup_def j
                               split: option.splits)
  have 2: "table_to_markdown e
        = join ''\<newline>'' (case find_tag (BeautifulSoup e) ''table'' of
                               None \<Rightarrow> [] | Some table \<Rightarrow> header_rows table)"
    if "''tbody'' \<notin> set (html_names e)"
    using b [OF that] by (simp add: table_to_markdown_def table_to_markdown_soup_def j
                               split: option.splits)
  have 3: "table_to_markdown e = []"
    if "''thead'' \<notin> set (html_names e)" "''tbody'' \<notin> set (html_names e)"
    using h [OF that(1)] b [OF that(2)]
    by (simp add: table_to_markdown_def table_to_markdown_soup_def j split: option.splits)
  have 4: "table_to_markdown e = []" if "''table'' \<notin> set (html_names e)"
    using no_table [OF that] by (simp add: table_to_markdown_def table_to_markdown_soup_def)
  show ?thesis
    using r 1 2 3 4 by blast
qed











text \<open>
  A table with a body only, a table with a header only, a table with neither, and a
  table whose elements are serialised with a prefix.
\<close>

theorem table_missing_groups_witness:
  "table_to_markdown_result
     (Element ''table'' None [] None
        [Element ''tbody'' None [] None
           [Element ''tr'' None [] None
              [Element ''td'' None [] (Some ''1'') [] None,
               Element ''td'' None [] (Some ''2'') [] None] None]
           None] None)
   = Inr ''| 1 | 2 |''
   \<and> table_to_markdown
       (Element ''table'' None [] None
          [Element ''thead'' None [] None
             [Element ''tr'' None [] None
                [Element ''th'' None [] (Some ''A'') [] None,
                 Element ''th'' None [] (Some ''B'') [] None] None]
             None] None)
     = ''| A | B |\<newline>| --- | --- |''
   \<and> table_to_markdown (Element ''table'' None [] (Some ''text only'') [] None) = []
   \<and> table_to_markdown
       (Element ''{http://www.w3.org/1999/xhtml}table'' (Some ''h'') [] None
          [Element ''{http://www.w3.org/1999/xhtml}td'' (Some ''h'') [] (Some ''1'') [] None] None)
     = []"
proof -
  let ?b = "Element ''table'' None [] None
        [Element ''tbody'' None [] None
           [Element ''tr'' None [] None
              [Element ''td'' None [] (Some ''1'') [] None,
               Element ''td'' None [] (Some ''2'') [] None] None]
           None] None"
  let ?h = "Element ''table'' None [] None
          [Element ''thead'' None [] None
             [Element ''tr'' None [] None
                [Element ''th'' None [] (Some ''A'') [] None,
                 Element ''th'' None [] (Some ''B'') [] None] None]
             None] None"
  let ?n = "Element ''table'' None [] (Some ''text only'') [] None"
  let ?p = "Element ''{http://www.w3.org/1999/xhtml}table'' (Some ''h'') [] None
          [Element ''{http://www.w3.org/1999/xhtml}td'' (Some ''h'') [] (Some ''1'') [] None] None"
  have b1: "''thead'' \<notin> set (html_names ?b)"
    and b2: "join ''\<newline>'' (case find_tag (BeautifulSoup ?b) ''table'' of
                               None \<Rightarrow> [] | Some table \<Rightarrow> body_rows table) = ''| 1 | 2 |''"
    by code_simp+
  have h1: "''tbody'' \<notin> set (html_names ?h)"
    and h2: "join ''\<newline>'' (case find_tag (BeautifulSoup ?h) ''table'' of
                               None \<Rightarrow> [] | Some table \<Rightarrow> header_rows table)
             = ''| A | B |\<newline>| --- | --- |''"
    by code_simp+
  have n1: "''thead'' \<notin> set (html_names ?n)" and n2: "''tbody'' \<notin> set (html_names ?n)"
    by code_simp+
  have p1: "''table'' \<notin> set (html_names ?p)"
    by code_simp
  have "table_to_markdown ?b
        = join ''\<newline>'' (case find_tag (BeautifulSoup ?b) ''table'' of
                               None \<Rightarrow> [] | Some table \<Rightarrow> body_rows table)"
    using table_missing_groups [of ?b] b1 by blast
  then have b3: "table_to_markdown ?b = ''| 1 | 2 |''"
    using b2 by (simp only:)
  have "table_to_markdown_result ?b = Inr (table_to_markdown ?b)"
    using table_missing_groups [of ?b] by blast
  then have "table_to_markdown_result ?b = Inr ''| 1 | 2 |''"
    using b3 by (simp only:)
  moreover have "table_to_markdown ?h
        = join ''\<newline>'' (case find_tag (BeautifulSoup ?h) ''table'' of
                               None \<Rightarrow> [] | Some table \<Rightarrow> header_rows table)"
    using table_missing_groups [of ?h] h1 by blast
  then have "table_to_markdown ?h = ''| A | B |\<newline>| --- | --- |''"
    using h2 by (simp only:)
  moreover have "table_to_markdown ?n = []"
    using table_missing_groups [of ?n] n1 n2 by blast
  moreover have "table_to_markdown ?p = []"
    using table_missing_groups [of ?p] p1 by blast
  ultimately show ?thesis
    by (simp only: simp_thms)
qed

section \<open>Properties of the renderer and the walk\<close>

text \<open>The local name of an element depends on its tag only.\<close>

lemma get_tag_name_tag_only:
  "get_tag_name (Element t pf a x cs ta) = get_tag_name (Element t pf' a' x' cs' ta')"
  by (simp add: get_tag_name_def split: list.splits)

lemma skip_empty_should_process_children:
  "skip_empty element \<Longrightarrow> should_process_children element"
  by (simp add: skip_empty_def should_process_children_def structural_tags_def)

lemma convert_list_tail:
  "convert_list (Element t pf a x cs ta) = convert_list (Element t pf a x cs None)"
  by (simp add: convert_list_def xpath_descendants_def)

lemma tag_branch_parent:
  assumes "get_tag_name p = get_tag_name p'"
  shows "tag_branch (Some p) element walk = tag_branch (Some p') element walk"
  by (simp only: tag_branch_def option.case assms)

lemma parent_tag_only:
  assumes "get_tag_name p = get_tag_name p'"
  shows "process_xml_tree (Some p) element level = process_xml_tree (Some p') element level"
proof (cases element)
  case None
  then show ?thesis by simp
next
  case (Some e)
  have "element_to_markdown (Some p) (Some e) level = element_to_markdown (Some p') (Some e) level"
    by (simp only: element_to_markdown.simps(2) tag_branch_parent [OF assms])
  then show ?thesis
    unfolding Some
    by (simp only: process_xml_tree.simps(2) [of "Some p" e level]
                   process_xml_tree.simps(2) [of "Some p'" e level])
qed

lemma tag_branch_tail:
  "tag_branch parent (Element t pf a x cs ta)
      (\<lambda>child. process_xml_tree (Some (Element t pf a x cs ta)) (Some child) level)
   = tag_branch parent (Element t pf a x cs None)
      (\<lambda>child. process_xml_tree (Some (Element t pf a x cs None)) (Some child) level)"
proof -
  have g: "get_tag_name (Element t pf a x cs ta) = get_tag_name (Element t pf a x cs None)"
    by (rule get_tag_name_tag_only)
  have w: "(\<lambda>child. process_xml_tree (Some (Element t pf a x cs ta)) (Some child) level)
         = (\<lambda>child. process_xml_tree (Some (Element t pf a x cs None)) (Some child) level)"
    using parent_tag_only [OF g] by blast
  show ?thesis
    by (simp only: w tag_branch_def g table_to_markdown_tail [of t pf a x cs ta]
                   convert_list_tail [of t pf a x cs ta]
                   get_child_text_def walk_except_def element.sel)
qed

lemma tail_text_eq:
  "tail_text (Element t pf a x cs ta)
   = (if strip (or_empty ta) \<noteq> [] then strip (or_empty ta) @ '' '' else [])"
  by (auto simp: tail_text_def strip_def lstrip_def rstrip_def)

text \<open>
  Claim C2, as amended. An element that passes the guard for empty elements (its own
  text is not blank, or its tag is a structural one) renders as the same element without
  tail would, followed by its tail: the tail stripped and one space when the stripped
  tail is not empty, nothing otherwise. This holds for every tag, whatever the branch of
  the tag emitted, and the tail never reaches the inside of the element's own fragment.
\<close>

theorem tail_appended:
  assumes "strip (or_empty x) \<noteq> [] \<or> get_tag_name (Element t pf a x cs ta) \<in> set structural_tags"
  shows "element_to_markdown parent (Some (Element t pf a x cs ta)) level
         = element_to_markdown parent (Some (Element t pf a x cs None)) level
           @ (if strip (or_empty ta) \<noteq> [] then strip (or_empty ta) @ '' '' else [])"
proof -
  have g: "get_tag_name (Element t pf a x cs ta) = get_tag_name (Element t pf a x cs None)"
    by (rule get_tag_name_tag_only)
  have s1: "\<not> skip_empty (Element t pf a x cs ta)" and s2: "\<not> skip_empty (Element t pf a x cs None)"
    using assms g by (auto simp: skip_empty_def)
  have t2: "tail_text (Element t pf a x cs None) = []"
    by (simp add: tail_text_def or_empty_def)
  show ?thesis
    using s1 s2
    by (simp only: element_to_markdown.simps(2) if_False tag_branch_tail [of parent t pf a x cs ta]
                   tail_text_eq [of t pf a x cs ta] t2 append_Nil2)
qed

text \<open>
  A \<open>num\<close> element with text and a tail: its branch emits nothing, the tail is appended.
\<close>

theorem tail_appended_witness:
  "strip (or_empty (Some ''(a)'')) \<noteq> []
   \<and> element_to_markdown None (Some (Element ''num'' None [] (Some ''(a)'') [] (Some '' and ''))) 0
     = ''and ''"
proof -
  have h0: "strip (or_empty (Some ''(a)'')) \<noteq> []"
    by code_simp
  then have h: "strip (or_empty (Some ''(a)'')) \<noteq> []
           \<or> get_tag_name (Element ''num'' None [] (Some ''(a)'') [] (Some '' and '')) \<in> set structural_tags"
    by (rule disjI1)
  have e: "element_to_markdown None (Some (Element ''num'' None [] (Some ''(a)'') [] None)) 0 = []"
    by code_simp
  have s: "strip (or_empty (Some '' and '')) = ''and''"
    by code_simp
  show ?thesis
    using h0 tail_appended [where parent = None and level = 0, OF h] by (simp add: e s)
qed

text \<open>
  Claim C2 as stated fails on two elements with a non-empty tail. An empty \<open>br\<close>, whose
  tail is \<open>world\<close>, is returned from by the guard for empty elements before the tail is
  read: its fragment is empty, not \<open>world\<close> and a space. A \<open>p\<close> whose tail is a
  line break gets nothing appended, not the stripped tail and a space.
\<close>

theorem tail_not_appended_counterexample:
  "or_empty (tail (Element ''br'' None [] None [] (Some ''world''))) \<noteq> []
   \<and> element_to_markdown None (Some (Element ''br'' None [] None [] (Some ''world''))) 0 = []
   \<and> or_empty (tail (Element ''p'' None [] (Some ''x'') [] (Some ''\<newline>''))) \<noteq> []
   \<and> element_to_markdown None (Some (Element ''p'' None [] (Some ''x'') [] (Some ''\<newline>''))) 0 = ''x ''"
  by code_simp

text \<open>
  Claim C1, as amended. For an element whose own text is blank and whose tag is outside
  the structural tags, the element renderer returns the empty string, and the tree walk
  returns what the walk of its children returns, in order: such a tag is not a
  container tag, so \<open>process_xml_tree\<close> still recurses into the children.
\<close>

theorem skipped_element_walk:
  assumes "strip (or_empty (text_of element)) = []"
    and "get_tag_name element \<notin> {''section'', ''subsection'', ''paragraph'', ''subparagraph'',
                                     ''table'', ''list'', ''title'', ''note'', ''notes''}"
  shows "element_to_markdown parent (Some element) level = []
       \<and> process_xml_tree parent (Some element) level
         = concat (map (\<lambda>child. process_xml_tree (Some element) (Some child) (level + 1))
                       (children element))"
proof -
  have s: "skip_empty element"
    using assms by (simp add: skip_empty_def structural_tags_def)
  then have c: "should_process_children element"
    by (rule skip_empty_should_process_children)
  have e: "element_to_markdown parent (Some element) level = []"
    using s by (simp add: element_to_markdown.simps(2))
  show ?thesis
    using c e by (simp add: process_xml_tree.simps(2) [of parent element level])
qed

text \<open>
  A \<open>foo\<close> element with blank text and one \<open>p\<close> child.
\<close>

theorem skipped_element_walk_witness:
  "strip (or_empty (text_of (Element ''foo'' None [] (Some '' '') [Element ''p'' None [] (Some ''hello'') [] None] None))) = []
   \<and> get_tag_name (Element ''foo'' None [] (Some '' '') [Element ''p'' None [] (Some ''hello'') [] None] None)
       \<notin> {''section'', ''subsection'', ''paragraph'', ''subparagraph'',
           ''table'', ''list'', ''title'', ''note'', ''notes''}
   \<and> element_to_markdown None
        (Some (Element ''foo'' None [] (Some '' '') [Element ''p'' None [] (Some ''hello'') [] None] None)) 0 = []
   \<and> process_xml_tree None
        (Some (Element ''foo'' None [] (Some '' '') [Element ''p'' None [] (Some ''hello'') [] None] None)) 0
     = process_xml_tree
        (Some (Element ''foo'' None [] (Some '' '') [Element ''p'' None [] (Some ''hello'') [] None] None))
        (Some (Element ''p'' None [] (Some ''hello'') [] None)) 1"
proof -
  have h1: "strip (or_empty (text_of (Element ''foo'' None [] (Some '' '')
              [Element ''p'' None [] (Some ''hello'') [] None] None))) = []"
    by code_simp
  have h2: "get_tag_name (Element ''foo'' None [] (Some '' '') [Element ''p'' None [] (Some ''hello'') [] None] None)
       \<notin> {''section'', ''subsection'', ''paragraph'', ''subparagraph'',
           ''table'', ''list'', ''title'', ''note'', ''notes''}"
    by code_simp
  show ?thesis
    using h1 h2 skipped_element_walk [OF h1 h2, of None 0] by simp
qed

text \<open>
  Claim C1 as stated fails: the walk of a textless \<open>foo\<close> element with a \<open>p\<close> child
  is the text of the child, not the empty string.
\<close>

theorem skipped_element_counterexample:
  "strip (or_empty (text_of (Element ''foo'' None [] None [Element ''p'' None [] (Some ''hello'') [] None] None))) = []
   \<and> get_tag_name (Element ''foo'' None [] None [Element ''p'' None [] (Some ''hello'') [] None] None)
       \<notin> {''section'', ''subsection'', ''paragraph'', ''subparagraph'',
           ''table'', ''list'', ''title'', ''note'', ''notes''}
   \<and> process_xml_tree None
        (Some (Element ''foo'' None [] None [Element ''p'' None [] (Some ''hello'') [] None] None)) 0
     = ''hello ''"
  by code_simp

text \<open>
  The section branch of \<open>element_to_markdown\<close>.
\<close>

lemma section_fragment:
  assumes "get_tag_name element = ''section''"
  shows "element_to_markdown parent (Some element) level
         = (let num = get_child_text element ''num'';
                heading = get_child_text element ''heading''
            in (if num = [] \<and> heading = [] then []
                else ''\<newline>## '' @ (if num \<noteq> [] then num @ '' '' else []) @ heading
                     @ ''\<newline>\<newline>'')
               @ concat (map (\<lambda>child. process_xml_tree (Some element) (Some child) (level + 1))
                             (filter (\<lambda>child. get_tag_name child \<noteq> ''num''
                                             \<and> get_tag_name child \<noteq> ''heading'')
                                     (children element)))
               @ tail_text element)"
proof -
  have s: "\<not> skip_empty element"
    using assms by (simp add: skip_empty_def structural_tags_def)
  show ?thesis
    using s assms
    by (simp add: element_to_markdown.simps(2) tag_branch_def walk_except_def header_line_def
                  Let_def)
qed

text \<open>
  Claim C4. A section whose children are a \<open>num\<close> with the text \<open>\<section>63\<close> and a
  \<open>heading\<close> with the text \<open>Taxable Income Defined\<close>, and that has no tail, renders
  as the level-2 heading between a line break and a blank line. In general a section
  renders as its header line (the number, a space, the heading; omitted when it has
  neither), then the walk at \<open>level + 1\<close> of every child that is neither \<open>num\<close> nor
  \<open>heading\<close>, then its tail.
\<close>

theorem section_rendering:
  "element_to_markdown parent
     (Some (Element ''section'' pf a x
              [Element ''num'' pf1 a1 (Some (CHR 0xA7 # ''63'')) [] t1,
               Element ''heading'' pf2 a2 (Some ''Taxable Income Defined'') [] t2] None)) level
   = ''\<newline>## '' @ [CHR 0xA7] @ ''63 Taxable Income Defined\<newline>\<newline>''
   \<and> (get_tag_name element = ''section'' \<longrightarrow>
        element_to_markdown parent (Some element) level
        = (let num = get_child_text element ''num'';
               heading = get_child_text element ''heading''
           in (if num = [] \<and> heading = [] then []
               else ''\<newline>## '' @ (if num \<noteq> [] then num @ '' '' else []) @ heading
                    @ ''\<newline>\<newline>'')
              @ concat (map (\<lambda>child. process_xml_tree (Some element) (Some child) (level + 1))
                            (filter (\<lambda>child. get_tag_name child \<noteq> ''num''
                                            \<and> get_tag_name child \<noteq> ''heading'')
                                    (children element)))
              @ tail_text element))"
proof -
  let ?e = "Element ''section'' pf a x
              [Element ''num'' pf1 a1 (Some (CHR 0xA7 # ''63'')) [] t1,
               Element ''heading'' pf2 a2 (Some ''Taxable Income Defined'') [] t2] None"
  have g: "get_tag_name ?e = ''section''"
    by (simp add: get_tag_name_def)
  have n: "get_child_text ?e ''num'' = CHR 0xA7 # ''63''"
    by (simp add: get_child_text_def get_tag_name_def or_empty_def strip_def lstrip_def
                  rstrip_def isspace_def)
  have h: "get_child_text ?e ''heading'' = ''Taxable Income Defined''"
    by (simp add: get_child_text_def get_tag_name_def or_empty_def strip_def lstrip_def
                  rstrip_def isspace_def)
  have c: "filter (\<lambda>child. get_tag_name child \<noteq> ''num'' \<and> get_tag_name child \<noteq> ''heading'')
                  (children ?e) = []"
    by (simp add: get_tag_name_def)
  have t: "tail_text ?e = []"
    by (simp add: tail_text_def or_empty_def)
  have "element_to_markdown parent (Some ?e) level
        = ''\<newline>## '' @ [CHR 0xA7] @ ''63 Taxable Income Defined\<newline>\<newline>''"
    by (simp only: section_fragment [OF g] n h c t Let_def) simp
  then show ?thesis
    using section_fragment [of element parent level] by blast
qed

text \<open>
  A section in the namespace of the tax code, with a number, no heading and one \<open>p\<close>.
\<close>

theorem section_rendering_witness:
  "get_tag_name (Element ''{http://xml.house.gov/schemas/uslm/1.0}section'' None [] None
        [Element ''num'' None [] (Some ''1.'') [] None,
         Element ''p'' None [] (Some ''Gross income means all income.'') [] None] None) = ''section''
   \<and> element_to_markdown None
       (Some (Element ''{http://xml.house.gov/schemas/uslm/1.0}section'' None [] None
        [Element ''num'' None [] (Some ''1.'') [] None,
         Element ''p'' None [] (Some ''Gross income means all income.'') [] None] None)) 0
     = ''\<newline>## 1. \<newline>\<newline>Gross income means all income. ''"
proof -
  let ?e = "Element ''{http://xml.house.gov/schemas/uslm/1.0}section'' None [] None
        [Element ''num'' None [] (Some ''1.'') [] None,
         Element ''p'' None [] (Some ''Gross income means all income.'') [] None] None"
  have g: "get_tag_name ?e = ''section''"
    by code_simp
  have r: "(let num = get_child_text ?e ''num'';
               heading = get_child_text ?e ''heading''
           in (if num = [] \<and> heading = [] then []
               else ''\<newline>## '' @ (if num \<noteq> [] then num @ '' '' else []) @ heading
                    @ ''\<newline>\<newline>'')
              @ concat (map (\<lambda>child. process_xml_tree (Some ?e) (Some child) (0 + 1))
                            (filter (\<lambda>child. get_tag_name child \<noteq> ''num''
                                            \<and> get_tag_name child \<noteq> ''heading'')
                                    (children ?e)))
              @ tail_text ?e)
          = ''\<newline>## 1. \<newline>\<newline>Gross income means all income. ''"
    by code_simp
  from section_rendering [of None None "[]" None None "[]" None None "[]" None 0 ?e]
  have "element_to_markdown None (Some ?e) 0
        = ''\<newline>## 1. \<newline>\<newline>Gross income means all income. ''"
    using g r by simp
  with g show ?thesis by simp
qed

section \<open>Properties of splitting and joining\<close>

lemma split_from_not_Nil: "split_from sep cur s \<noteq> []"
  by (induction sep cur s rule: split_from.induct) auto

lemma join_Cons: "xs \<noteq> [] \<Longrightarrow> join sep (x # xs) = x @ sep @ join sep xs"
  by (cases xs) auto

lemma join_split_from:
  "sep \<noteq> [] \<Longrightarrow> join sep (split_from sep cur s) = cur @ s"
proof (induction sep cur s rule: split_from.induct)
  case (1 sep cur)
  then show ?case by simp
next
  case (2 sep cur c cs)
  show ?case
  proof (cases "prefix sep (c # cs)")
    case True
    then obtain r where r: "c # cs = sep @ r"
      by (auto simp: prefix_def)
    with "2.prems" have d: "drop (length sep - 1) cs = r"
      by (cases sep) auto
    have u: "split_from sep cur (c # cs) = cur # split_from sep [] r"
      using True d by simp
    have "join sep (split_from sep [] r) = r"
      using "2.IH"(1) [OF True "2.prems"] d by simp
    then have "join sep (split_from sep cur (c # cs)) = cur @ sep @ r"
      unfolding u by (simp add: join_Cons split_from_not_Nil)
    then show ?thesis
      unfolding r by simp
  next
    case False
    then show ?thesis
      using "2.IH"(2) [OF False "2.prems"] by simp
  qed
qed

lemma join_split: "sep \<noteq> [] \<Longrightarrow> join sep (split s sep) = s"
  by (simp add: split_def join_split_from)

lemma join_append_Cons:
  "join sep (xs @ (a @ sep @ b) # ys) = join sep (xs @ a # b # ys)"
proof (induction xs)
  case Nil
  show ?case by (cases ys) auto
next
  case (Cons x xs)
  then show ?case by (simp add: join_Cons)
qed

lemma paragraphs_loop_join:
  assumes "\<forall>p \<in> set paragraphs. p \<noteq> []" and "current \<noteq> []"
  shows "(case paragraphs_loop m paragraphs chunks current of
            (chunks', current') \<Rightarrow> current' \<noteq> []
              \<and> join ''\<newline>\<newline>'' (chunks' @ [current'])
                = join ''\<newline>\<newline>'' (chunks @ current # paragraphs))"
  using assms
proof (induction paragraphs arbitrary: chunks current)
  case Nil
  then show ?case by simp
next
  case (Cons p ps)
  have p: "p \<noteq> []" and ps: "\<forall>q \<in> set ps. q \<noteq> []"
    using Cons.prems(1) by auto
  show ?case
  proof (cases "int (length current) + int (length p) + 2 > m")
    case True
    then show ?thesis
      using Cons.IH [OF ps p, of "chunks @ [current]"] Cons.prems(2) by simp
  next
    case False
    have ne: "current @ ''\<newline>\<newline>'' @ p \<noteq> []"
      using p by simp
    show ?thesis
      using False Cons.IH [OF ps ne, of chunks] Cons.prems(2)
            join_append_Cons [of "''\<newline>\<newline>''" chunks current p ps]
      by simp
  qed
qed

text \<open>
  Claim C10, as amended. When none of the paragraphs of the text (the pieces between
  blank lines) is empty, joining the chunks with a blank line gives the text back, for
  every chunk size. An empty paragraph met while the current chunk is empty leaves the
  chunks and the current chunk as they are: it is dropped, without its separator.
\<close>

theorem chunks_join_to_text:
  assumes "\<forall>para \<in> set (split text ''\<newline>\<newline>''). para \<noteq> []"
  shows "join ''\<newline>\<newline>'' (split_by_paragraphs text max_chunk_size) = text
       \<and> paragraphs_loop max_chunk_size ([] # paragraphs) chunks []
         = paragraphs_loop max_chunk_size paragraphs chunks []"
proof -
  obtain p ps where s: "split text ''\<newline>\<newline>'' = p # ps"
    using split_from_not_Nil [of "''\<newline>\<newline>''" "[]" "text"]
    by (cases "split text ''\<newline>\<newline>''") (auto simp: split_def)
  have p: "p \<noteq> []" and ps: "\<forall>q \<in> set ps. q \<noteq> []"
    using assms s by auto
  obtain finished current where l: "paragraphs_loop max_chunk_size ps [] p = (finished, current)"
    by (cases "paragraphs_loop max_chunk_size ps [] p") auto
  have "current \<noteq> [] \<and> join ''\<newline>\<newline>'' (finished @ [current]) = join ''\<newline>\<newline>'' (p # ps)"
    using paragraphs_loop_join [OF ps p, where m = max_chunk_size and chunks = "[]"] l by simp
  moreover have "join ''\<newline>\<newline>'' (p # ps) = text"
    using join_split [of "''\<newline>\<newline>''" "text"] s by simp
  ultimately have "join ''\<newline>\<newline>'' (split_by_paragraphs text max_chunk_size) = text"
    using s l by (simp add: split_by_paragraphs_def)
  moreover have "paragraphs_loop max_chunk_size ([] # paragraphs) chunks []
                 = paragraphs_loop max_chunk_size paragraphs chunks []"
    by simp
  ultimately show ?thesis
    by (simp only: simp_thms)
qed

text \<open>A text of three paragraphs, cut into two chunks.\<close>

theorem chunks_join_to_text_witness:
  "split ''one\<newline>\<newline>two\<newline>\<newline>three'' ''\<newline>\<newline>'' = [''one'', ''two'', ''three'']
   \<and> split_by_paragraphs ''one\<newline>\<newline>two\<newline>\<newline>three'' 10 = [''one\<newline>\<newline>two'', ''three'']
   \<and> join ''\<newline>\<newline>'' (split_by_paragraphs ''one\<newline>\<newline>two\<newline>\<newline>three'' 10)
     = ''one\<newline>\<newline>two\<newline>\<newline>three''"
proof -
  have h: "\<forall>para \<in> set (split ''one\<newline>\<newline>two\<newline>\<newline>three'' ''\<newline>\<newline>''). para \<noteq> []"
    by code_simp
  have a: "split ''one\<newline>\<newline>two\<newline>\<newline>three'' ''\<newline>\<newline>'' = [''one'', ''two'', ''three'']"
    by code_simp
  have b: "split_by_paragraphs ''one\<newline>\<newline>two\<newline>\<newline>three'' 10 = [''one\<newline>\<newline>two'', ''three'']"
    by code_simp
  show ?thesis
    using chunks_join_to_text [OF h, of 10] a b by simp
qed

text \<open>
  Claim C10 as stated fails on a text that starts with a blank line: its first
  paragraph is empty and is lost.
\<close>

theorem chunks_join_counterexample:
  "split_by_paragraphs ''\<newline>\<newline>abc'' 5000 = [''abc'']
   \<and> join ''\<newline>\<newline>'' (split_by_paragraphs ''\<newline>\<newline>abc'' 5000) \<noteq> ''\<newline>\<newline>abc''"
  by code_simp

section \<open>Properties of the calls\<close>

lemma process_xml_tree_calls_eq:
  "process_xml_tree_calls path element
   = path # concat (map (\<lambda>(i, child). process_xml_tree_calls (path @ [i]) child)
                        (filter (\<lambda>(i, child). walks_child element child)
                                (enumerate 0 (children element))))"
proof -
  let ?tag = "get_tag_name element"
  consider (sec) "?tag = ''section'' \<or> ?tag = ''subsection''"
    | (par) "?tag = ''paragraph'' \<or> ?tag = ''subparagraph''"
    | (nt) "?tag = ''note'' \<or> ?tag = ''notes''"
    | (leaf) "?tag = ''table'' \<or> ?tag = ''list''"
    | (other) "?tag \<notin> set [''section'', ''subsection'', ''paragraph'', ''subparagraph'',
                              ''table'', ''list'', ''note'', ''notes'']"
    by auto
  then show ?thesis
  proof cases
    case sec
    then show ?thesis
      by (auto simp: process_xml_tree_calls.simps [of path element]
                     element_to_markdown_calls.simps [of path element]
                     calls_except_def walks_child_def should_process_children_def
                     skip_empty_def structural_tags_def Let_def)
  next
    case par
    then show ?thesis
      by (auto simp: process_xml_tree_calls.simps [of path element]
                     element_to_markdown_calls.simps [of path element]
                     calls_except_def walks_child_def should_process_children_def
                     skip_empty_def structural_tags_def Let_def)
  next
    case nt
    then show ?thesis
      by (auto simp: process_xml_tree_calls.simps [of path element]
                     element_to_markdown_calls.simps [of path element]
                     calls_except_def walks_child_def should_process_children_def
                     skip_empty_def structural_tags_def Let_def)
  next
    case leaf
    then show ?thesis
      by (auto simp: process_xml_tree_calls.simps [of path element]
                     element_to_markdown_calls.simps [of path element]
                     calls_except_def walks_child_def should_process_children_def
                     skip_empty_def structural_tags_def Let_def)
  next
    case other
    then show ?thesis
      by (auto simp: process_xml_tree_calls.simps [of path element]
                     element_to_markdown_calls.simps [of path element]
                     calls_except_def walks_child_def should_process_children_def Let_def)
  qed
qed

lemma enumerate_child:
  "(i, child) \<in> set (enumerate 0 cs) \<longleftrightarrow> i < length cs \<and> child = cs ! i"
  by (auto simp: in_set_enumerate_eq)

lemma calls_prefix:
  "q \<in> set (process_xml_tree_calls path element) \<Longrightarrow> prefix path q"
proof (induction element arbitrary: path q)
  case (Element t pf a x cs ta)
  from Element.prems
  consider "q = path"
    | i child where "(i, child) \<in> set (enumerate 0 cs)"
        and "q \<in> set (process_xml_tree_calls (path @ [i]) child)"
    by (subst (asm) process_xml_tree_calls_eq) auto
  then show ?case
  proof cases
    case 1
    then show ?thesis by simp
  next
    case 2
    then have "child \<in> set cs"
      by (auto simp: enumerate_child)
    then have "prefix (path @ [i]) q"
      using Element.IH 2(2) by blast
    then show ?thesis
      by (auto elim: append_prefixD)
  qed
qed

lemma distinct_indexed_concat:
  assumes "distinct (map fst xs)"
    and "\<And>i c. (i, c) \<in> set xs \<Longrightarrow> distinct (f i c)"
    and "\<And>i c q. (i, c) \<in> set xs \<Longrightarrow> q \<in> set (f i c) \<Longrightarrow> prefix (p @ [i]) q"
  shows "distinct (concat (map (\<lambda>(i, c). f i c) xs))"
  using assms
proof (induction xs)
  case Nil
  then show ?case by simp
next
  case (Cons x xs)
  obtain i c where x: "x = (i, c)" by (cases x)
  have d: "distinct (concat (map (\<lambda>(i, c). f i c) xs))"
  proof (rule Cons.IH)
    show "distinct (map fst xs)"
      using Cons.prems(1) by simp
    show "distinct (f i c)" if "(i, c) \<in> set xs" for i c
      using Cons.prems(2) [of i c] that by simp
    show "prefix (p @ [i]) q" if "(i, c) \<in> set xs" and "q \<in> set (f i c)" for i c q
      using Cons.prems(3) [of i c q] that by simp
  qed
  have "set (f i c) \<inter> set (concat (map (\<lambda>(i, c). f i c) xs)) = {}"
  proof (rule ccontr)
    assume "set (f i c) \<inter> set (concat (map (\<lambda>(i, c). f i c) xs)) \<noteq> {}"
    then obtain q j c' where q: "q \<in> set (f i c)" and j: "(j, c') \<in> set xs" and q': "q \<in> set (f j c')"
      by auto
    have "prefix (p @ [i]) q" and "prefix (p @ [j]) q"
      using Cons.prems(3) [of i c q] Cons.prems(3) [of j c' q] q j q' x by auto
    then have "i = j"
      by (auto simp: prefix_def)
    then show False
      using Cons.prems(1) j x by force
  qed
  then show ?case
    using d Cons.prems(2) [of i c] x by simp
qed

lemma calls_distinct: "distinct (process_xml_tree_calls path element)"
proof (induction element arbitrary: path)
  case (Element t pf a x cs ta)
  let ?xs = "filter (\<lambda>(i, child). walks_child (Element t pf a x cs ta) child) (enumerate 0 cs)"
  have m: "child \<in> set cs" if "(i, child) \<in> set ?xs" for i child
    using that by (auto simp: enumerate_child)
  have 1: "distinct (map fst ?xs)"
    by (simp add: distinct_map_filter)
  have 2: "distinct (concat (map (\<lambda>(i, child). process_xml_tree_calls (path @ [i]) child) ?xs))"
    using 1
  proof (rule distinct_indexed_concat)
    show "distinct (process_xml_tree_calls (path @ [i]) c)" if "(i, c) \<in> set ?xs" for i c
      using Element.IH m that by blast
    show "prefix (path @ [i]) q"
      if "(i, c) \<in> set ?xs" and "q \<in> set (process_xml_tree_calls (path @ [i]) c)" for i c q
      using that(2) by (rule calls_prefix)
  qed
  have 3: "path \<notin> set (concat (map (\<lambda>(i, child). process_xml_tree_calls (path @ [i]) child) ?xs))"
  proof
    assume "path \<in> set (concat (map (\<lambda>(i, child). process_xml_tree_calls (path @ [i]) child) ?xs))"
    then obtain i c where "path \<in> set (process_xml_tree_calls (path @ [i]) c)"
      by auto
    then have "prefix (path @ [i]) path"
      by (rule calls_prefix)
    then show False
      by (auto simp: prefix_def)
  qed
  show ?case
    using 2 3 by (subst process_xml_tree_calls_eq) simp
qed

lemma calls_reached:
  "path @ q \<in> set (process_xml_tree_calls path element) \<longleftrightarrow> reached element q"
proof (induction q arbitrary: path element)
  case Nil
  show ?case
    by (subst process_xml_tree_calls_eq) simp
next
  case (Cons i q)
  let ?cs = "children element"
  have "path @ i # q \<in> set (process_xml_tree_calls path element)
        \<longleftrightarrow> (\<exists>j c. (j, c) \<in> set (enumerate 0 ?cs) \<and> walks_child element c
                  \<and> path @ i # q \<in> set (process_xml_tree_calls (path @ [j]) c))"
    by (subst process_xml_tree_calls_eq) auto
  also have "\<dots> \<longleftrightarrow> i < length ?cs \<and> walks_child element (?cs ! i)
                  \<and> (path @ [i]) @ q \<in> set (process_xml_tree_calls (path @ [i]) (?cs ! i))"
  proof
    assume "\<exists>j c. (j, c) \<in> set (enumerate 0 ?cs) \<and> walks_child element c
                  \<and> path @ i # q \<in> set (process_xml_tree_calls (path @ [j]) c)"
    then obtain j c where j: "j < length ?cs" "c = ?cs ! j" and w: "walks_child element c"
        and m: "path @ i # q \<in> set (process_xml_tree_calls (path @ [j]) c)"
      by (auto simp: enumerate_child)
    from m have "prefix (path @ [j]) (path @ i # q)"
      by (rule calls_prefix)
    then have "j = i" by simp
    then show "i < length ?cs \<and> walks_child element (?cs ! i)
                  \<and> (path @ [i]) @ q \<in> set (process_xml_tree_calls (path @ [i]) (?cs ! i))"
      using j w m by simp
  next
    assume "i < length ?cs \<and> walks_child element (?cs ! i)
                  \<and> (path @ [i]) @ q \<in> set (process_xml_tree_calls (path @ [i]) (?cs ! i))"
    then show "\<exists>j c. (j, c) \<in> set (enumerate 0 ?cs) \<and> walks_child element c
                  \<and> path @ i # q \<in> set (process_xml_tree_calls (path @ [j]) c)"
      by (auto simp: enumerate_child)
  qed
  also have "\<dots> \<longleftrightarrow> reached element (i # q)"
    using Cons.IH [of "path @ [i]" "?cs ! i"] by simp
  finally show ?case .
qed

lemma count_list_distinct:
  "distinct xs \<Longrightarrow> count_list xs x = (if x \<in> set xs then 1 else 0)"
  by (induction xs) auto

text \<open>
  Claim C3, as amended. No element is rendered twice: the walk calls the renderer at
  most once on each element. It calls it exactly once on the root of the walk and on
  every element reached from it by walked steps, and never on the others: the \<open>num\<close>,
  \<open>heading\<close> and \<open>content\<close> children that a container reads by itself, and everything
  below a table or a list. An absent element gives the empty string, and the walk
  itself goes on into the children of an element exactly when its tag is not a container
  tag.
\<close>

theorem rendered_at_most_once:
  "distinct (process_xml_tree_calls path element)
   \<and> count_list (process_xml_tree_calls path element) (path @ q)
     = (if reached element q then 1 else 0)
   \<and> process_xml_tree parent None level = []
   \<and> process_xml_tree parent (Some element) level
     = element_to_markdown parent (Some element) level
       @ (if get_tag_name element \<in> set [''section'', ''subsection'', ''paragraph'',
                                          ''subparagraph'', ''table'', ''list'', ''note'', ''notes'']
          then []
          else concat (map (\<lambda>child. process_xml_tree (Some element) (Some child) (level + 1))
                           (children element)))"
proof -
  have "count_list (process_xml_tree_calls path element) (path @ q)
        = (if reached element q then 1 else 0)"
    using calls_distinct [of path element] calls_reached [of path q element]
    by (simp add: count_list_distinct)
  moreover have "process_xml_tree parent (Some element) level
     = element_to_markdown parent (Some element) level
       @ (if get_tag_name element \<in> set [''section'', ''subsection'', ''paragraph'',
                                          ''subparagraph'', ''table'', ''list'', ''note'', ''notes'']
          then []
          else concat (map (\<lambda>child. process_xml_tree (Some element) (Some child) (level + 1))
                           (children element)))"
    by (simp add: process_xml_tree.simps(2) [of parent element level] should_process_children_def)
  ultimately show ?thesis
    using calls_distinct [of path element] by simp
qed

text \<open>
  A section with a number, a \<open>p\<close> that has a child, and a table with a row: the
  section, the \<open>p\<close>, its child and the table are rendered once, the number and the row
  of the table never.
\<close>

theorem rendered_at_most_once_witness:
  "count_list (process_xml_tree_calls []
      (Element ''section'' None [] None
         [Element ''num'' None [] (Some ''1'') [] None,
          Element ''p'' None [] (Some ''x'') [Element ''b'' None [] None [] None] None,
          Element ''table'' None [] None [Element ''tr'' None [] None [] None] None] None)) [] = 1
   \<and> count_list (process_xml_tree_calls []
      (Element ''section'' None [] None
         [Element ''num'' None [] (Some ''1'') [] None,
          Element ''p'' None [] (Some ''x'') [Element ''b'' None [] None [] None] None,
          Element ''table'' None [] None [Element ''tr'' None [] None [] None] None] None)) [0] = 0
   \<and> count_list (process_xml_tree_calls []
      (Element ''section'' None [] None
         [Element ''num'' None [] (Some ''1'') [] None,
          Element ''p'' None [] (Some ''x'') [Element ''b'' None [] None [] None] None,
          Element ''table'' None [] None [Element ''tr'' None [] None [] None] None] None)) [1, 0] = 1
   \<and> count_list (process_xml_tree_calls []
      (Element ''section'' None [] None
         [Element ''num'' None [] (Some ''1'') [] None,
          Element ''p'' None [] (Some ''x'') [Element ''b'' None [] None [] None] None,
          Element ''table'' None [] None [Element ''tr'' None [] None [] None] None] None)) [2] = 1
   \<and> count_list (process_xml_tree_calls []
      (Element ''section'' None [] None
         [Element ''num'' None [] (Some ''1'') [] None,
          Element ''p'' None [] (Some ''x'') [Element ''b'' None [] None [] None] None,
          Element ''table'' None [] None [Element ''tr'' None [] None [] None] None] None)) [2, 0] = 0"
proof -
  let ?e = "Element ''section'' None [] None
         [Element ''num'' None [] (Some ''1'') [] None,
          Element ''p'' None [] (Some ''x'') [Element ''b'' None [] None [] None] None,
          Element ''table'' None [] None [Element ''tr'' None [] None [] None] None] None"
  have r: "reached ?e []" "\<not> reached ?e [0]" "reached ?e [1, 0]" "reached ?e [2]"
          "\<not> reached ?e [2, 0]"
    by code_simp+
  show ?thesis
    using rendered_at_most_once [of "[]" ?e "[]" None 0]
          rendered_at_most_once [of "[]" ?e "[0]" None 0]
          rendered_at_most_once [of "[]" ?e "[1, 0]" None 0]
          rendered_at_most_once [of "[]" ?e "[2]" None 0]
          rendered_at_most_once [of "[]" ?e "[2, 0]" None 0]
    by (simp only: r append_Nil if_True if_False simp_thms)
qed

text \<open>
  Claim C3 as stated fails: the \<open>num\<close> child of a section is an element of the tree, and
  the walk of the section never calls the renderer on it, so it is not rendered exactly
  once.
\<close>

theorem rendered_exactly_once_counterexample:
  "0 < length (children (Element ''section'' None [] None
                  [Element ''num'' None [] (Some ''1'') [] None] None))
   \<and> count_list (process_xml_tree_calls []
        (Element ''section'' None [] None [Element ''num'' None [] (Some ''1'') [] None] None)) [0] = 0
   \<and> count_list (process_xml_tree_calls []
        (Element ''section'' None [] None [Element ''num'' None [] (Some ''1'') [] None] None)) [0] \<noteq> 1"
  by code_simp

section \<open>Properties of the agent\<close>

text \<open>
  A heading holds a section number when a section sign is followed by a digit
  somewhere in it: the pattern of \<open>_extract_citation\<close> matches there and nowhere else.
\<close>

definition has_section_number :: "string \<Rightarrow> bool" where
  "has_section_number s = list_ex (\<lambda>(a, b). a = CHR 0xA7 \<and> isdigit b) (zip s (tl s))"

lemma section_number_None:
  "section_number (c # cs) = None \<longleftrightarrow> \<not> (c = CHR 0xA7 \<and> cs \<noteq> [] \<and> isdigit (hd cs))"
  by (cases cs) (auto simp: section_number_def Let_def split: prod.splits)

lemma search_section_number_None:
  "search_section_number s = None \<longleftrightarrow> \<not> has_section_number s"
proof (induction s)
  case Nil
  show ?case by (simp add: has_section_number_def)
next
  case (Cons c cs)
  have "has_section_number (c # cs)
        \<longleftrightarrow> (c = CHR 0xA7 \<and> cs \<noteq> [] \<and> isdigit (hd cs)) \<or> has_section_number cs"
    by (cases cs) (auto simp: has_section_number_def)
  then show ?case
    using Cons.IH section_number_None [of c cs]
    by (cases "section_number (c # cs)") auto
qed

lemma remove_marks_and_space_no_hash:
  "CHR ''#'' \<notin> set s \<Longrightarrow> remove_marks_and_space s = s"
proof (induction s)
  case Nil
  show ?case by simp
next
  case (Cons c cs)
  then have "c \<noteq> CHR ''#''"
    by auto
  then have "heading_marks (c # cs) = None"
    by (simp add: heading_marks_def)
  then have "marks_and_space (c # cs) = None"
    by (simp add: marks_and_space_def)
  then show ?case
    using Cons by simp
qed

lemma remove_marks_and_space_heading:
  assumes "1 \<le> k" and "k \<le> 4" and "isspace w" and "CHR ''#'' \<notin> set t"
  shows "remove_marks_and_space (replicate k CHR ''#'' @ w # t) = dropWhile isspace t"
proof -
  have w: "w \<noteq> CHR ''#''"
    using assms(3) by (auto simp: isspace_def)
  obtain j where k: "k = Suc j"
    using assms(1) by (cases k) auto
  have tk: "takeWhile (\<lambda>c. c = CHR ''#'') (replicate k CHR ''#'' @ w # t) = replicate k CHR ''#''"
    using w by (induction k) auto
  have dk: "dropWhile (\<lambda>c. c = CHR ''#'') (replicate k CHR ''#'' @ w # t) = w # t"
    using w by (induction k) auto
  have "heading_marks (replicate k CHR ''#'' @ w # t) = Some (replicate k CHR ''#'', w # t)"
    unfolding heading_marks_def tk dk using assms(1,2,3) by simp
  then have m: "marks_and_space (replicate k CHR ''#'' @ w # t) = Some (dropWhile isspace t)"
    using assms(3) by (simp add: marks_and_space_def)
  have "CHR ''#'' \<notin> set (dropWhile isspace t)"
    using assms(4) set_dropWhileD by fastforce
  then have "remove_marks_and_space (dropWhile isspace t) = dropWhile isspace t"
    by (rule remove_marks_and_space_no_hash)
  moreover have "remove_marks_and_space (replicate k CHR ''#'' @ w # t)
                 = remove_marks_and_space (dropWhile isspace t)"
    using m unfolding k by simp
  ultimately show ?thesis by simp
qed

lemma strip_dropWhile: "strip (dropWhile isspace t) = strip t"
  by (simp add: strip_def lstrip_def)

text \<open>
  Claim C8, as amended. The heading \<open>## \<section>63(c) Standard Deduction\<close> gives the
  citation \<open>26 USC \<section>63(c) [Standard Deduction]\<close>. A heading that holds no section
  number gives \<open>US Tax Code [...]\<close> around the heading with every run of one to four
  hashes and the whitespace after it cut out, wherever it stands, and then stripped; for
  one to four hashes, a whitespace character and a text without hashes, that is the
  stripped text.
\<close>

theorem citation_of_heading:
  "extract_citation (''## '' @ [CHR 0xA7] @ ''63(c) Standard Deduction'')
   = ''26 USC '' @ [CHR 0xA7] @ ''63(c) [Standard Deduction]''
   \<and> (\<not> has_section_number s \<longrightarrow>
        extract_citation s = ''US Tax Code ['' @ strip (remove_marks_and_space s) @ '']'')
   \<and> (1 \<le> k \<and> k \<le> 4 \<and> isspace w \<and> CHR ''#'' \<notin> set t
        \<and> \<not> has_section_number (replicate k CHR ''#'' @ w # t) \<longrightarrow>
        extract_citation (replicate k CHR ''#'' @ w # t) = ''US Tax Code ['' @ strip t @ '']'')"
proof -
  have 1: "extract_citation (''## '' @ [CHR 0xA7] @ ''63(c) Standard Deduction'')
           = ''26 USC '' @ [CHR 0xA7] @ ''63(c) [Standard Deduction]''"
    by code_simp
  have 2: "extract_citation s = ''US Tax Code ['' @ strip (remove_marks_and_space s) @ '']''"
    if "\<not> has_section_number s" for s
    using that search_section_number_None [of s] by (simp add: extract_citation_def)
  have 3: "extract_citation (replicate k CHR ''#'' @ w # t) = ''US Tax Code ['' @ strip t @ '']''"
    if "1 \<le> k" "k \<le> 4" "isspace w" "CHR ''#'' \<notin> set t"
       "\<not> has_section_number (replicate k CHR ''#'' @ w # t)"
    using 2 [OF that(5)] remove_marks_and_space_heading [OF that(1,2,3,4)]
    by (simp only: strip_dropWhile)
  show ?thesis
    using 1 2 3 by blast
qed

text \<open>Two headings without a section number, the second with a hash inside.\<close>

theorem citation_of_heading_witness:
  "\<not> has_section_number ''## General Provisions''
   \<and> extract_citation ''## General Provisions'' = ''US Tax Code [General Provisions]''
   \<and> \<not> has_section_number ''Part # 2''
   \<and> extract_citation ''Part # 2'' = ''US Tax Code [Part 2]''"
proof -
  have h1: "\<not> has_section_number ''## General Provisions''"
    by code_simp
  have h1': "1 \<le> (2::nat) \<and> (2::nat) \<le> 4 \<and> isspace CHR '' '' \<and> CHR ''#'' \<notin> set ''General Provisions''
             \<and> \<not> has_section_number (replicate 2 CHR ''#'' @ CHR '' '' # ''General Provisions'')"
    by code_simp
  have r: "replicate 2 CHR ''#'' @ CHR '' '' # ''General Provisions'' = ''## General Provisions''"
    by code_simp
  have s1: "strip ''General Provisions'' = ''General Provisions''"
    by code_simp
  have h2: "\<not> has_section_number ''Part # 2''"
    by code_simp
  have s2: "strip (remove_marks_and_space ''Part # 2'') = ''Part 2''"
    by code_simp
  have "extract_citation ''## General Provisions'' = ''US Tax Code [General Provisions]''"
    using citation_of_heading [of s 2 "CHR '' ''" "''General Provisions''"] h1'
    unfolding r s1 by simp
  moreover have "extract_citation ''Part # 2'' = ''US Tax Code [Part 2]''"
    using citation_of_heading [of "''Part # 2''"] h2 unfolding s2 by simp
  ultimately show ?thesis
    using h1 h2 by simp
qed

text \<open>
  Claim C8 as stated fails on two headings without a section number. A hash and a space
  inside the heading are cut out too, while the heading with its leading hashes removed
  and trimmed keeps them; and of five leading hashes only four are cut out.
\<close>

theorem citation_of_heading_counterexample:
  "\<not> has_section_number ''Part # 2''
   \<and> extract_citation ''Part # 2'' = ''US Tax Code [Part 2]''
   \<and> ''US Tax Code ['' @ strip (dropWhile (\<lambda>c. c = CHR ''#'') ''Part # 2'') @ '']''
     = ''US Tax Code [Part # 2]''
   \<and> \<not> has_section_number ''##### Title''
   \<and> extract_citation ''##### Title'' = ''US Tax Code [#Title]''
   \<and> ''US Tax Code ['' @ strip (dropWhile (\<lambda>c. c = CHR ''#'') ''##### Title'') @ '']''
     = ''US Tax Code [Title]''"
  by code_simp

lemma relevance_order:
  "sorted_wrt (\<lambda>a b. relevance a \<ge> relevance b) (sort_key (\<lambda>x. - relevance x) rs)"
proof -
  have "sorted (map (\<lambda>x. - relevance x) (sort_key (\<lambda>x. - relevance x) rs))"
    by (rule sorted_sort_key)
  then show ?thesis
    by (simp add: sorted_wrt_map)
qed

text \<open>
  Claim C9. The search returns at most three records, in the order of their relevance,
  the highest first, and the content of each record is the first 500 characters of the
  content of a section of the document; its heading is the heading of that section.
\<close>

theorem relevant_sections_top_three:
  "length (find_relevant_sections tax_code_content question) \<le> 3
   \<and> sorted_wrt (\<lambda>a b. relevance a \<ge> relevance b)
                 (find_relevant_sections tax_code_content question)
   \<and> (\<forall>r \<in> set (find_relevant_sections tax_code_content question).
         length (content r) \<le> 500
         \<and> (\<exists>(h, c) \<in> set (findall_sections tax_code_content).
               heading r = h \<and> content r = take 500 c))"
proof -
  let ?key_terms = "extract_key_terms question"
  let ?rs = "map (\<lambda>(h, c).
                   \<lparr>heading = h, content = take 500 c,
                    citation = extract_citation h,
                    relevance = relevance_score ?key_terms h c\<rparr>)
                (filter (\<lambda>(h, c). relevance_score ?key_terms h c > 0)
                        (findall_sections tax_code_content))"
  have f: "find_relevant_sections tax_code_content question
           = take 3 (sort_key (\<lambda>x. - relevance x) ?rs)"
    by (simp add: find_relevant_sections_def Let_def)
  have 1: "length (find_relevant_sections tax_code_content question) \<le> 3"
    unfolding f by simp
  have 2: "sorted_wrt (\<lambda>a b. relevance a \<ge> relevance b)
                      (find_relevant_sections tax_code_content question)"
    unfolding f using relevance_order [of ?rs] by (rule sorted_wrt_take)
  have 3: "length (content r) \<le> 500
           \<and> (\<exists>(h, c) \<in> set (findall_sections tax_code_content).
                 heading r = h \<and> content r = take 500 c)"
    if "r \<in> set (find_relevant_sections tax_code_content question)" for r
  proof -
    from that have "r \<in> set (sort_key (\<lambda>x. - relevance x) ?rs)"
      unfolding f by (rule in_set_takeD)
    then have "r \<in> set ?rs"
      by simp
    then show ?thesis
      by auto
  qed
  show ?thesis
    using 1 2 3 by blast
qed

text \<open>
  A document of four sections, three of them relevant to the question: the one that
  matches two terms comes first, the two that match one term keep their order.
\<close>

theorem relevant_sections_top_three_witness:
  "map (\<lambda>r. (heading r, content r, relevance r))
       (find_relevant_sections
          ''# Income\<newline>\<newline>gross income\<newline>## Other\<newline>\<newline>nothing here\<newline>## Credits\<newline>\<newline>a tax credit and income\<newline>## Tax\<newline>\<newline>rates''
          ''income tax'')
   = [(''## Credits'', ''a tax credit and income'', 2),
      (''# Income'', ''gross income'', 1),
      (''## Tax'', ''rates'', 1)]"
proof -
  let ?doc = "''# Income\<newline>\<newline>gross income\<newline>## Other\<newline>\<newline>nothing here\<newline>## Credits\<newline>\<newline>a tax credit and income\<newline>## Tax\<newline>\<newline>rates''"
  have e: "map (\<lambda>r. (heading r, content r, relevance r)) (find_relevant_sections ?doc ''income tax'')
   = [(''## Credits'', ''a tax credit and income'', 2),
      (''# Income'', ''gross income'', 1),
      (''## Tax'', ''rates'', 1)]"
    by code_simp
  have "length (find_relevant_sections ?doc ''income tax'') \<le> 3"
    using relevant_sections_top_three [of ?doc "''income tax''"] by blast
  with e show ?thesis by simp
qed

section \<open>Properties of the clean-up\<close>

text \<open>
  A text is tidy when no line of it starts or ends with whitespace. \<open>tidy_from p s\<close>
  reads \<open>s\<close> after the character \<open>p\<close>: a line break is never followed, and never
  preceded, by another whitespace character, and the text does not end with one.
\<close>

definition hspace :: "char \<Rightarrow> bool" where
  "hspace c = (isspace c \<and> c \<noteq> CHR ''\<newline>'')"

fun tidy_from :: "char \<Rightarrow> string \<Rightarrow> bool" where
  "tidy_from p [] = (\<not> hspace p)"
| "tidy_from p (c # cs) =
     (\<not> (p = CHR ''\<newline>'' \<and> hspace c) \<and> \<not> (hspace p \<and> c = CHR ''\<newline>'') \<and> tidy_from c cs)"

definition tidy :: "string \<Rightarrow> bool" where
  "tidy s = tidy_from CHR ''\<newline>'' s"

text \<open>Where a blank line stands before a heading: the pattern of the third step matches.\<close>

fun blank_heading_in :: "string \<Rightarrow> bool" where
  "blank_heading_in [] = False"
| "blank_heading_in (c # cs) = (blank_heading (c # cs) \<noteq> None \<or> blank_heading_in cs)"

lemma isspace_newline: "isspace CHR ''\<newline>''"
  by (simp add: isspace_def)

lemma hspace_newline: "\<not> hspace CHR ''\<newline>''"
  by (simp add: hspace_def)

lemma split_from_newline:
  "split_from ''\<newline>'' cur (c # cs)
   = (if c = CHR ''\<newline>'' then cur # split_from ''\<newline>'' [] cs
      else split_from ''\<newline>'' (cur @ [c]) cs)"
  by simp

lemma dropWhile_hd: "xs \<noteq> [] \<Longrightarrow> \<not> P (hd xs) \<Longrightarrow> dropWhile P xs = xs"
  by (cases xs) auto

lemma strip_fixed:
  assumes "l = [] \<or> (\<not> isspace (hd l) \<and> \<not> isspace (last l))"
  shows "strip l = l"
proof (cases "l = []")
  case True
  then show ?thesis by (simp add: strip_def lstrip_def rstrip_def)
next
  case False
  with assms have h: "\<not> isspace (hd l)" and t: "\<not> isspace (last l)"
    by auto
  have 1: "dropWhile isspace l = l"
    using False h by (rule dropWhile_hd)
  have "\<not> isspace (hd (rev l))"
    using False t by (simp add: hd_rev)
  then have 2: "dropWhile isspace (rev l) = rev l"
    using False by (intro dropWhile_hd) auto
  show ?thesis
    by (simp add: strip_def lstrip_def rstrip_def 1 2)
qed

lemma strip_ends:
  assumes "strip x \<noteq> []"
  shows "\<not> isspace (hd (strip x)) \<and> \<not> isspace (last (strip x))"
proof -
  let ?y = "dropWhile isspace x"
  let ?z = "dropWhile isspace (rev ?y)"
  have s: "strip x = rev ?z"
    by (simp add: strip_def lstrip_def rstrip_def)
  with assms have z: "?z \<noteq> []"
    by simp
  then have l: "\<not> isspace (hd ?z)"
    by (rule hd_dropWhile)
  have "last (strip x) = hd ?z"
    unfolding s using z by (simp add: last_rev)
  with l have 1: "\<not> isspace (last (strip x))"
    by simp
  obtain k where k: "?z = drop k (rev ?y)"
    by (metis dropWhile_eq_drop)
  have "rev ?z = take (length ?y - k) ?y"
    unfolding k by (simp add: rev_drop)
  then have t: "strip x = take (length ?y - k) ?y"
    using s by simp
  with assms have y: "?y \<noteq> []" and n: "0 < length ?y - k"
    by auto
  have "hd (strip x) = hd ?y"
    unfolding t using n by (cases ?y) (auto simp: take_Cons split: nat.splits)
  moreover have "\<not> isspace (hd ?y)"
    using y by (rule hd_dropWhile)
  ultimately show ?thesis
    using 1 by simp
qed

lemma strip_subset: "x \<in> set (strip l) \<Longrightarrow> x \<in> set l"
proof -
  assume "x \<in> set (strip l)"
  then have "x \<in> set (dropWhile isspace (rev (dropWhile isspace l)))"
    by (simp add: strip_def lstrip_def rstrip_def)
  then have "x \<in> set (rev (dropWhile isspace l))"
    by (rule set_dropWhileD)
  then have "x \<in> set (dropWhile isspace l)"
    by simp
  then show ?thesis
    by (rule set_dropWhileD)
qed

lemma strip_no_newline: "CHR ''\<newline>'' \<notin> set l \<Longrightarrow> CHR ''\<newline>'' \<notin> set (strip l)"
  using strip_subset by blast

lemma split_from_no_newline:
  "l \<in> set (split_from ''\<newline>'' cur s) \<Longrightarrow> CHR ''\<newline>'' \<notin> set cur \<Longrightarrow> CHR ''\<newline>'' \<notin> set l"
proof (induction s arbitrary: cur)
  case Nil
  then show ?case by simp
next
  case (Cons c cs)
  show ?case
  proof (cases "c = CHR ''\<newline>''")
    case True
    with Cons.prems have "l = cur \<or> l \<in> set (split_from ''\<newline>'' [] cs)"
      by (simp add: split_from_newline)
    then show ?thesis
      using Cons.IH [of "[]"] Cons.prems(2) by auto
  next
    case False
    with Cons.prems have "l \<in> set (split_from ''\<newline>'' (cur @ [c]) cs)"
      by (simp add: split_from_newline)
    then show ?thesis
      using Cons.IH [of "cur @ [c]"] Cons.prems(2) False by auto
  qed
qed

text \<open>The first and the last character of a line decide, once the line holds no line break.\<close>

lemma tidy_from_line:
  "CHR ''\<newline>'' \<notin> set l \<Longrightarrow>
   tidy_from p (l @ r)
   = (if l = [] then tidy_from p r
      else \<not> (p = CHR ''\<newline>'' \<and> hspace (hd l)) \<and> tidy_from (last l) r)"
proof (induction l arbitrary: p)
  case Nil
  show ?case by simp
next
  case (Cons c l)
  then have c: "c \<noteq> CHR ''\<newline>''" and l: "CHR ''\<newline>'' \<notin> set l"
    by auto
  show ?case
  proof (cases "l = []")
    case True
    then show ?thesis using c by simp
  next
    case False
    then have "hd l \<noteq> CHR ''\<newline>''"
      using l by (cases l) auto
    then show ?thesis
      using Cons.IH [OF l, of c] False c by simp
  qed
qed

lemma tidy_from_join:
  assumes "\<forall>l \<in> set ls. CHR ''\<newline>'' \<notin> set l \<and> (l = [] \<or> (\<not> isspace (hd l) \<and> \<not> isspace (last l)))"
    and "ls \<noteq> []"
  shows "tidy_from CHR ''\<newline>'' (join ''\<newline>'' ls)"
  using assms
proof (induction ls)
  case Nil
  then show ?case by simp
next
  case (Cons l ls)
  have n: "CHR ''\<newline>'' \<notin> set l" and e: "l = [] \<or> (\<not> isspace (hd l) \<and> \<not> isspace (last l))"
    using Cons.prems(1) by auto
  show ?case
  proof (cases "ls = []")
    case True
    have "tidy_from CHR ''\<newline>'' (l @ [])"
      unfolding tidy_from_line [OF n] using e by (auto simp: hspace_def)
    then show ?thesis
      using True by simp
  next
    case False
    then have "tidy_from CHR ''\<newline>'' (join ''\<newline>'' ls)"
      using Cons by auto
    then have "tidy_from CHR ''\<newline>'' (l @ CHR ''\<newline>'' # join ''\<newline>'' ls)"
      unfolding tidy_from_line [OF n] using e by (auto simp: hspace_def)
    then show ?thesis
      using False by (simp add: join_Cons)
  qed
qed

lemma tidy_strip_lines: "tidy (strip_lines s)"
proof -
  let ?ls = "map strip (split s ''\<newline>'')"
  have "CHR ''\<newline>'' \<notin> set l \<and> (l = [] \<or> (\<not> isspace (hd l) \<and> \<not> isspace (last l)))"
    if "l \<in> set ?ls" for l
  proof -
    from that obtain x where x: "x \<in> set (split s ''\<newline>'')" and l: "l = strip x"
      by auto
    have "CHR ''\<newline>'' \<notin> set x"
      using x split_from_no_newline [of x "[]" s] by (simp add: split_def)
    then show ?thesis
      unfolding l using strip_no_newline strip_ends by blast
  qed
  moreover have "?ls \<noteq> []"
    by (simp add: split_def split_from_not_Nil)
  ultimately show ?thesis
    unfolding tidy_def strip_lines_def by (intro tidy_from_join) auto
qed

lemma tidy_from_lines:
  assumes "tidy_from p s"
    and "(cur = [] \<and> p = CHR ''\<newline>'')
         \<or> (cur \<noteq> [] \<and> \<not> isspace (hd cur) \<and> last cur = p \<and> p \<noteq> CHR ''\<newline>'')"
    and "l \<in> set (split_from ''\<newline>'' cur s)"
  shows "strip l = l"
  using assms
proof (induction s arbitrary: p cur)
  case Nil
  then have "l = cur" by simp
  moreover have "cur = [] \<or> (\<not> isspace (hd cur) \<and> \<not> isspace (last cur))"
    using Nil.prems(1,2) by (auto simp: hspace_def)
  ultimately show ?case
    using strip_fixed by blast
next
  case (Cons c cs)
  have t: "tidy_from c cs" and a: "\<not> (p = CHR ''\<newline>'' \<and> hspace c)"
      and b: "\<not> (hspace p \<and> c = CHR ''\<newline>'')"
    using Cons.prems(1) by auto
  show ?case
  proof (cases "c = CHR ''\<newline>''")
    case True
    with Cons.prems(3) consider "l = cur" | "l \<in> set (split_from ''\<newline>'' [] cs)"
      by (auto simp: split_from_newline)
    then show ?thesis
    proof cases
      case 1
      have "cur = [] \<or> (\<not> isspace (hd cur) \<and> \<not> isspace (last cur))"
        using Cons.prems(2) b True by (auto simp: hspace_def)
      then show ?thesis
        unfolding 1 by (rule strip_fixed)
    next
      case 2
      show ?thesis
        using Cons.IH [of c "[]"] t True 2 by simp
    qed
  next
    case False
    with Cons.prems(3) have m: "l \<in> set (split_from ''\<newline>'' (cur @ [c]) cs)"
      by (simp add: split_from_newline)
    have "\<not> isspace (hd (cur @ [c]))"
      using Cons.prems(2) a False by (cases cur) (auto simp: hspace_def)
    then show ?thesis
      using Cons.IH [of c "cur @ [c]"] t False m by simp
  qed
qed

lemma strip_lines_tidy:
  assumes "tidy s"
  shows "strip_lines s = s"
proof -
  have "strip l = l" if "l \<in> set (split s ''\<newline>'')" for l
    using tidy_from_lines [of "CHR ''\<newline>''" s "[]" l] assms that
    by (simp add: tidy_def split_def)
  then have "map strip (split s ''\<newline>'') = split s ''\<newline>''"
    by (simp add: map_idI)
  then show ?thesis
    by (simp add: strip_lines_def join_split)
qed

text \<open>The third and the fourth step keep a tidy text tidy.\<close>

lemma tidy_from_prefix:
  assumes "tidy_from q (a @ w # rest)"
    and "\<And>p. tidy_from p rest \<Longrightarrow> tidy_from p rest'"
  shows "tidy_from q (a @ w # rest')"
  using assms(1)
proof (induction a arbitrary: q)
  case Nil
  then show ?case using assms(2) by simp
next
  case (Cons c a)
  then show ?case by simp
qed

lemma blank_heading_Some:
  assumes "blank_heading s = Some (group1, rest)"
  shows "\<exists>hashes w. s = ''\<newline>\<newline>'' @ hashes @ w # rest \<and> group1 = hashes @ [w]"
proof -
  let ?hashes = "takeWhile (\<lambda>c. c = CHR ''#'') (drop 2 s)"
  let ?after = "dropWhile (\<lambda>c. c = CHR ''#'') (drop 2 s)"
  from assms have p: "prefix ''\<newline>\<newline>'' s" and a: "?after \<noteq> []"
      and g: "group1 = ?hashes @ [hd ?after]" and r: "rest = tl ?after"
    by (auto simp: blank_heading_def Let_def split: if_splits)
  from p have "s = ''\<newline>\<newline>'' @ drop 2 s"
    by (auto simp: prefix_def)
  also have "drop 2 s = ?hashes @ ?after"
    by simp
  also have "?after = hd ?after # rest"
    using a r by simp
  finally show ?thesis
    using g by blast
qed

lemma tidy_from_unblank_headings:
  "tidy_from p s \<Longrightarrow> tidy_from p (unblank_headings s)"
proof (induction s arbitrary: p rule: unblank_headings.induct)
  case 1
  then show ?case by simp
next
  case (2 c cs)
  show ?case
  proof (cases "blank_heading (c # cs)")
    case None
    then show ?thesis
      using "2.IH"(1) [OF None] "2.prems" by simp
  next
    case (Some m)
    obtain group1 rest where m: "m = (group1, rest)"
      by (cases m)
    obtain hashes w where s: "c # cs = ''\<newline>\<newline>'' @ hashes @ w # rest"
        and g: "group1 = hashes @ [w]"
      using blank_heading_Some Some m by blast
    have ih: "tidy_from q rest \<Longrightarrow> tidy_from q (unblank_headings rest)" for q
      using "2.IH"(2) [OF Some m [symmetric]] by simp
    from "2.prems" have n: "\<not> hspace p"
      and t: "tidy_from CHR ''\<newline>'' (hashes @ w # rest)"
      unfolding s by auto
    have "tidy_from CHR ''\<newline>'' (hashes @ w # unblank_headings rest)"
      using t ih by (rule tidy_from_prefix)
    then have "tidy_from p (''\<newline>'' @ group1 @ unblank_headings rest)"
      using n g by (simp add: hspace_newline)
    then show ?thesis
      using Some m by simp
  qed
qed

lemma tidy_from_drop_spaces:
  "tidy_from CHR '' '' cs \<Longrightarrow> tidy_from CHR '' '' (dropWhile (\<lambda>x. x = CHR '' '') cs)"
  by (induction cs) auto

lemma tidy_from_collapse_spaces:
  "tidy_from p s \<Longrightarrow> tidy_from p (collapse_spaces s)"
proof (induction s arbitrary: p rule: collapse_spaces.induct)
  case 1
  then show ?case by simp
next
  case (2 c cs)
  show ?case
  proof (cases "c = CHR '' '' \<and> 1 \<le> length (takeWhile (\<lambda>x. x = CHR '' '') cs)")
    case True
    from "2.prems" True have "tidy_from CHR '' '' cs"
      by simp
    then have "tidy_from CHR '' '' (dropWhile (\<lambda>x. x = CHR '' '') cs)"
      by (rule tidy_from_drop_spaces)
    then have "tidy_from CHR '' '' (collapse_spaces (dropWhile (\<lambda>x. x = CHR '' '') cs))"
      using "2.IH"(1) [OF True] by simp
    then show ?thesis
      using True "2.prems" by simp
  next
    case False
    then show ?thesis
      using "2.IH"(2) [OF False] "2.prems" by auto
  qed
qed

lemma tidy_post_process: "tidy (post_process s)"
  unfolding post_process_def tidy_def
  using tidy_strip_lines [of "collapse_newlines s"]
  by (auto simp: tidy_def intro: tidy_from_collapse_spaces tidy_from_unblank_headings)

text \<open>A step leaves a text alone when its pattern matches nowhere in it.\<close>

lemma collapse_newlines_fixed:
  "\<not> contains s ''\<newline>\<newline>\<newline>'' \<Longrightarrow> collapse_newlines s = s"
proof (induction s)
  case Nil
  show ?case by simp
next
  case (Cons c cs)
  have "\<not> (c = CHR ''\<newline>'' \<and> 2 \<le> length (takeWhile (\<lambda>x. x = CHR ''\<newline>'') cs))"
  proof
    assume a: "c = CHR ''\<newline>'' \<and> 2 \<le> length (takeWhile (\<lambda>x. x = CHR ''\<newline>'') cs)"
    then obtain x y r where "cs = x # y # r" "x = CHR ''\<newline>''" "y = CHR ''\<newline>''"
      by (cases cs; cases "tl cs") (auto split: if_splits)
    with a have "prefix ''\<newline>\<newline>\<newline>'' (c # cs)"
      by simp
    then have "contains (c # cs) ''\<newline>\<newline>\<newline>''"
      by (simp only: contains.simps simp_thms)
    with Cons.prems(1) show False
      by blast
  qed
  then have n: "(c = CHR ''\<newline>'' \<and> 2 \<le> length (takeWhile (\<lambda>x. x = CHR ''\<newline>'') cs)) = False"
    by simp
  have "\<not> contains cs ''\<newline>\<newline>\<newline>''"
    using Cons.prems by simp
  then have "collapse_newlines cs = cs"
    by (rule Cons.IH)
  then show ?case
    by (simp only: collapse_newlines.simps n if_False)
qed

lemma unblank_headings_fixed:
  "\<not> blank_heading_in s \<Longrightarrow> unblank_headings s = s"
  by (induction s) (auto split: option.splits)

lemma collapse_spaces_head:
  "collapse_spaces s = [] \<longleftrightarrow> s = []" "s \<noteq> [] \<Longrightarrow> hd (collapse_spaces s) = hd s"
  by (cases s; simp)+

lemma starts_with_space:
  "1 \<le> length (takeWhile (\<lambda>x. x = CHR '' '') cs) \<longleftrightarrow> cs \<noteq> [] \<and> hd cs = CHR '' ''"
  by (cases cs) auto

lemma collapse_spaces_idem: "collapse_spaces (collapse_spaces s) = collapse_spaces s"
proof (induction s rule: collapse_spaces.induct)
  case 1
  show ?case by simp
next
  case (2 c cs)
  show ?case
  proof (cases "c = CHR '' '' \<and> 1 \<le> length (takeWhile (\<lambda>x. x = CHR '' '') cs)")
    case True
    let ?r = "dropWhile (\<lambda>x. x = CHR '' '') cs"
    have r: "hd ?r \<noteq> CHR '' ''" if "?r \<noteq> []"
      using hd_dropWhile [OF that] by simp
    have "\<not> (collapse_spaces ?r \<noteq> [] \<and> hd (collapse_spaces ?r) = CHR '' '')"
      by (metis r collapse_spaces_head(1) collapse_spaces_head(2))
    then have "(CHR '' '' = CHR '' ''
                \<and> 1 \<le> length (takeWhile (\<lambda>x. x = CHR '' '') (collapse_spaces ?r))) = False"
      by (simp only: starts_with_space simp_thms)
    then have "collapse_spaces (CHR '' '' # collapse_spaces ?r)
               = CHR '' '' # collapse_spaces (collapse_spaces ?r)"
      by (simp only: collapse_spaces.simps if_False)
    moreover have "collapse_spaces (c # cs) = CHR '' '' # collapse_spaces ?r"
    proof -
      have "(c = CHR '' '' \<and> 1 \<le> length (takeWhile (\<lambda>x. x = CHR '' '') cs)) = True"
        using True by blast
      then show ?thesis
        by (simp only: collapse_spaces.simps if_True)
    qed
    moreover have "collapse_spaces (collapse_spaces ?r) = collapse_spaces ?r"
      using "2.IH"(1) [OF True] .
    ultimately show ?thesis
      by (simp only:)
  next
    case False
    then have "\<not> (c = CHR '' '' \<and> cs \<noteq> [] \<and> hd cs = CHR '' '')"
      using starts_with_space [of cs] by blast
    then have "\<not> (c = CHR '' '' \<and> collapse_spaces cs \<noteq> [] \<and> hd (collapse_spaces cs) = CHR '' '')"
      by (metis collapse_spaces_head(1) collapse_spaces_head(2))
    then have "(c = CHR '' ''
                \<and> 1 \<le> length (takeWhile (\<lambda>x. x = CHR '' '') (collapse_spaces cs))) = False"
      by (simp only: starts_with_space simp_thms)
    then have "collapse_spaces (c # collapse_spaces cs) = c # collapse_spaces (collapse_spaces cs)"
      by (simp only: collapse_spaces.simps if_False)
    moreover have "collapse_spaces (c # cs) = c # collapse_spaces cs"
    proof -
      have "(c = CHR '' '' \<and> 1 \<le> length (takeWhile (\<lambda>x. x = CHR '' '') cs)) = False"
        using False by blast
      then show ?thesis
        by (simp only: collapse_spaces.simps if_False)
    qed
    moreover have "collapse_spaces (collapse_spaces cs) = collapse_spaces cs"
      using "2.IH"(2) [OF False] .
    ultimately show ?thesis
      by (simp only:)
  qed
qed

text \<open>No step makes a text longer, and a step whose pattern matches makes it shorter.\<close>

lemma collapse_newlines_length: "length (collapse_newlines s) \<le> length s"
proof (induction s rule: collapse_newlines.induct)
  case 1
  show ?case by simp
next
  case (2 c cs)
  show ?case
  proof (cases "c = CHR ''\<newline>'' \<and> 2 \<le> length (takeWhile (\<lambda>x. x = CHR ''\<newline>'') cs)")
    case True
    have "length (takeWhile (\<lambda>x. x = CHR ''\<newline>'') cs)
          + length (dropWhile (\<lambda>x. x = CHR ''\<newline>'') cs) = length cs"
      by (metis length_append takeWhile_dropWhile_id)
    then show ?thesis
      using True "2.IH"(1) [OF True] by simp
  next
    case False
    then show ?thesis
      using "2.IH"(2) [OF False] by auto
  qed
qed

lemma collapse_newlines_shorter:
  "contains s ''\<newline>\<newline>\<newline>'' \<Longrightarrow> length (collapse_newlines s) < length s"
proof (induction s)
  case Nil
  then show ?case by simp
next
  case (Cons c cs)
  show ?case
  proof (cases "c = CHR ''\<newline>'' \<and> 2 \<le> length (takeWhile (\<lambda>x. x = CHR ''\<newline>'') cs)")
    case True
    have "length (takeWhile (\<lambda>x. x = CHR ''\<newline>'') cs)
          + length (dropWhile (\<lambda>x. x = CHR ''\<newline>'') cs) = length cs"
      by (metis length_append takeWhile_dropWhile_id)
    then show ?thesis
      using True collapse_newlines_length [of "dropWhile (\<lambda>x. x = CHR ''\<newline>'') cs"] by simp
  next
    case False
    have "\<not> prefix ''\<newline>\<newline>\<newline>'' (c # cs)"
    proof
      assume "prefix ''\<newline>\<newline>\<newline>'' (c # cs)"
      then obtain r where "c # cs = ''\<newline>\<newline>\<newline>'' @ r"
        by (auto simp: prefix_def)
      then have "c = CHR ''\<newline>''" and "cs = ''\<newline>\<newline>'' @ r"
        by auto
      with False show False
        by simp
    qed
    with Cons.prems have "contains cs ''\<newline>\<newline>\<newline>''"
      by (simp only: contains.simps simp_thms)
    then have "length (collapse_newlines cs) < length cs"
      by (rule Cons.IH)
    then show ?thesis
      using False by auto
  qed
qed

lemma unblank_headings_length: "length (unblank_headings s) \<le> length s"
proof (induction s rule: unblank_headings.induct)
  case 1
  show ?case by simp
next
  case (2 c cs)
  show ?case
  proof (cases "blank_heading (c # cs)")
    case None
    then show ?thesis
      using "2.IH"(1) [OF None] by simp
  next
    case (Some m)
    obtain group1 rest where m: "m = (group1, rest)"
      by (cases m)
    obtain hashes w where s: "c # cs = ''\<newline>\<newline>'' @ hashes @ w # rest"
        and g: "group1 = hashes @ [w]"
      using blank_heading_Some Some m by blast
    have "length (c # cs) = length group1 + length rest + 2"
      unfolding s g by simp
    then show ?thesis
      using "2.IH"(2) [OF Some m [symmetric]] Some m by simp
  qed
qed

lemma unblank_headings_shorter:
  "blank_heading_in s \<Longrightarrow> length (unblank_headings s) < length s"
proof (induction s)
  case Nil
  then show ?case by simp
next
  case (Cons c cs)
  show ?case
  proof (cases "blank_heading (c # cs)")
    case None
    with Cons.prems have "blank_heading_in cs"
      by simp
    then have "length (unblank_headings cs) < length cs"
      by (rule Cons.IH)
    then show ?thesis
      using None by simp
  next
    case (Some m)
    obtain group1 rest where m: "m = (group1, rest)"
      by (cases m)
    obtain hashes w where s: "c # cs = ''\<newline>\<newline>'' @ hashes @ w # rest"
        and g: "group1 = hashes @ [w]"
      using blank_heading_Some Some m by blast
    have "length (c # cs) = length group1 + length rest + 2"
      unfolding s g by simp
    then show ?thesis
      using unblank_headings_length [of rest] Some m by simp
  qed
qed

lemma collapse_spaces_length: "length (collapse_spaces s) \<le> length s"
proof (induction s rule: collapse_spaces.induct)
  case 1
  show ?case by simp
next
  case (2 c cs)
  show ?case
  proof (cases "c = CHR '' '' \<and> 1 \<le> length (takeWhile (\<lambda>x. x = CHR '' '') cs)")
    case True
    have "length (dropWhile (\<lambda>x. x = CHR '' '') cs) \<le> length cs"
      by (rule length_dropWhile_le)
    then show ?thesis
      using True "2.IH"(1) [OF True] by simp
  next
    case False
    then show ?thesis
      using "2.IH"(2) [OF False] by auto
  qed
qed

text \<open>
  Claim C5, as amended. Applying the clean-up twice gives what applying it once gives
  exactly when the text cleaned once holds no run of three line breaks and no blank
  line before a heading. The lines need no second stripping and the spaces no second
  collapsing on any text.
\<close>

theorem post_process_twice:
  "(post_process (post_process s) = post_process s
    \<longleftrightarrow> \<not> contains (post_process s) ''\<newline>\<newline>\<newline>'' \<and> \<not> blank_heading_in (post_process s))
   \<and> strip_lines (post_process s) = post_process s
   \<and> collapse_spaces (post_process s) = post_process s"
proof -
  let ?t = "post_process s"
  have 2: "strip_lines ?t = ?t"
    using tidy_post_process by (rule strip_lines_tidy)
  have 4: "collapse_spaces ?t = ?t"
    by (simp add: post_process_def collapse_spaces_idem)
  have p: "post_process ?t = collapse_spaces (unblank_headings (strip_lines (collapse_newlines ?t)))"
    by (simp add: post_process_def)
  have l: "length (post_process u) \<le> length (unblank_headings (strip_lines (collapse_newlines u)))"
    for u
    by (simp add: post_process_def collapse_spaces_length)
  have twice: "post_process ?t = ?t \<longleftrightarrow> \<not> contains ?t ''\<newline>\<newline>\<newline>'' \<and> \<not> blank_heading_in ?t"
  proof (cases "contains ?t ''\<newline>\<newline>\<newline>''")
    case True
    define v where "v = collapse_newlines ?t"
    have "length (post_process ?t) \<le> length (unblank_headings (strip_lines v))"
      unfolding v_def by (rule l)
    also have "\<dots> \<le> length (strip_lines v)"
      by (rule unblank_headings_length)
    also have "\<dots> \<le> length v"
    proof -
      have "length (join sep (map strip ls)) \<le> length (join sep ls)" for sep ls
      proof (induction ls)
        case Nil
        show ?case by simp
      next
        case (Cons x ls)
        have "length (strip x) \<le> length x"
          unfolding strip_def lstrip_def rstrip_def
          using length_dropWhile_le [of isspace "rev (dropWhile isspace x)"]
                length_dropWhile_le [of isspace x]
          by simp
        then show ?case
          using Cons by (cases ls) auto
      qed
      then have "length (strip_lines v) \<le> length (join ''\<newline>'' (split v ''\<newline>''))"
        by (simp add: strip_lines_def)
      then show ?thesis
        by (simp add: join_split)
    qed
    also have "\<dots> < length ?t"
      unfolding v_def using True by (rule collapse_newlines_shorter)
    finally have "post_process ?t \<noteq> ?t"
      by auto
    with True show ?thesis
      by simp
  next
    case False
    then have 1: "collapse_newlines ?t = ?t"
      by (rule collapse_newlines_fixed)
    show ?thesis
    proof (cases "blank_heading_in ?t")
      case True
      have "length (post_process ?t) \<le> length (unblank_headings ?t)"
        using l [of ?t] by (simp only: 1 2)
      also have "\<dots> < length ?t"
        using True by (rule unblank_headings_shorter)
      finally have "post_process ?t \<noteq> ?t"
        by auto
      with True show ?thesis
        by simp
    next
      case no: False
      then have 3: "unblank_headings ?t = ?t"
        by (rule unblank_headings_fixed)
      have "post_process ?t = ?t"
        unfolding p by (simp only: 1 2 3 4)
      with False no show ?thesis
        by simp
    qed
  qed
  from twice 2 4 show ?thesis
    by (simp only: simp_thms)
qed

text \<open>
  A text with a long run of line breaks, a blank line before a heading, runs of spaces
  and whitespace at the ends of its lines.
\<close>

theorem post_process_twice_witness:
  "post_process ''Title \<newline>\<newline>\<newline>\<newline>\<newline>##  Gross   income  \<newline>  text''
   = ''Title\<newline>## Gross income\<newline>text''
   \<and> post_process (post_process ''Title \<newline>\<newline>\<newline>\<newline>\<newline>##  Gross   income  \<newline>  text'')
     = ''Title\<newline>## Gross income\<newline>text''"
proof -
  let ?s = "''Title \<newline>\<newline>\<newline>\<newline>\<newline>##  Gross   income  \<newline>  text''"
  have e: "post_process ?s = ''Title\<newline>## Gross income\<newline>text''"
    by code_simp
  have h1: "\<not> contains (post_process ?s) ''\<newline>\<newline>\<newline>''"
    unfolding e by code_simp
  have h2: "\<not> blank_heading_in (post_process ?s)"
    unfolding e by code_simp
  show ?thesis
    using post_process_twice [of ?s] h1 h2 e by simp
qed

text \<open>
  Claim C5 as stated fails. A line of spaces between line breaks is emptied by the
  second step, after the first step has run: the text cleaned once holds three line
  breaks in a row, and cleaning it again removes one. And a heading of hashes alone,
  between two blank lines, keeps the blank line after it the first time and loses it
  the second time.
\<close>

theorem post_process_twice_counterexample:
  "post_process ''\<newline> \<newline>\<newline>'' = ''\<newline>\<newline>\<newline>''
   \<and> post_process (post_process ''\<newline> \<newline>\<newline>'') = ''\<newline>\<newline>''
   \<and> post_process ''\<newline>\<newline>#\<newline>\<newline># x'' = ''\<newline>#\<newline>\<newline># x''
   \<and> post_process (post_process ''\<newline>\<newline>#\<newline>\<newline># x'') = ''\<newline>#\<newline># x''"
  by code_simp

end
